theory Spec2Isabelle
  imports Main
begin

section \<open>Regular expressions as the checker uses them\<close>

text \<open>
  The checker (\<^verbatim>\<open>ci/checks/copyright.py\<close>) does all of its text work with Python's
  \<^verbatim>\<open>re\<close> module: \<^verbatim>\<open>search\<close> to find a header on a line and \<^verbatim>\<open>sub\<close> to rewrite it.
  The patterns of the program use literals, \<^verbatim>\<open>\d\<close>, \<^verbatim>\<open>.\<close>, a starred character,
  optional and alternative non-capturing groups, capturing groups and \<^verbatim>\<open>$\<close>.  A
  pattern is the list of its tokens, in the order they are written; a capturing
  group is the pair of its parentheses \<open>GOpen\<close>, \<open>GClose\<close> around its tokens.

  Text is a \<open>string\<close>: one \<open>char\<close> per decoded character, so the model covers
  files whose characters have code points below 256.  On such text \<^verbatim>\<open>\d\<close> is
  exactly the ten ASCII digits.
\<close>

datatype item =
    Lit string
  | Digit
  | AnyChar
  | Star char
  | Opt "item list"
  | Alt "item list" "item list"
  | GOpen
  | GClose
  | Dollar

type_synonym regex = "item list"

definition is_digit :: "char \<Rightarrow> bool" where
  "is_digit c = (c \<in> set ''0123456789'')"

definition LF :: char where
  "LF = CHR 0x0A"

definition CR :: char where
  "CR = CHR 0x0D"

text \<open>
  The matcher is the backtracking search of \<^verbatim>\<open>re\<close>: tokens are tried from left to
  right against the text, a starred character takes as many characters as it can
  and gives them back one at a time when the rest of the pattern fails, an optional
  group is tried before it is skipped, and the left alternative before the right
  one.  The state is the list of the groups captured so far and the texts at which
  the groups still open were entered.  The result is the captured groups and the
  text left after the match.
\<close>

type_synonym mstate = "string list \<times> string list"

function bt :: "regex \<Rightarrow> string \<Rightarrow> mstate \<Rightarrow> (string list \<times> string) option" where
  "bt [] s st = Some (fst st, s)"
| "bt (Lit l # k) s st =
     (if take (length l) s = l then bt k (drop (length l) s) st else None)"
| "bt (Digit # k) s st =
     (case s of [] \<Rightarrow> None | c # cs \<Rightarrow> if is_digit c then bt k cs st else None)"
| "bt (AnyChar # k) s st =
     (case s of [] \<Rightarrow> None | c # cs \<Rightarrow> if c \<noteq> LF then bt k cs st else None)"
| "bt (Star x # k) s st =
     (case s of
        [] \<Rightarrow> bt k s st
      | c # cs \<Rightarrow>
          if c = x then
            (case bt (Star x # k) cs st of Some res \<Rightarrow> Some res | None \<Rightarrow> bt k s st)
          else bt k s st)"
| "bt (Opt r # k) s st =
     (case bt (r @ k) s st of Some res \<Rightarrow> Some res | None \<Rightarrow> bt k s st)"
| "bt (Alt a b # k) s st =
     (case bt (a @ k) s st of Some res \<Rightarrow> Some res | None \<Rightarrow> bt (b @ k) s st)"
| "bt (GOpen # k) s st = bt k s (fst st, s # snd st)"
| "bt (GClose # k) s st =
     (case snd st of
        [] \<Rightarrow> bt k s st
      | s0 # opens \<Rightarrow> bt k s (fst st @ [take (length s0 - length s) s0], opens))"
| "bt (Dollar # k) s st = (if s = [] \<or> s = [LF] then bt k s st else None)"
  by pat_completeness auto
termination
  by (relation "measures [\<lambda>(r, s, st). size_list size r, \<lambda>(r, s, st). length s]") auto

text \<open>\<^verbatim>\<open>pattern.match(s)\<close>: a match that starts at the first character.\<close>

definition re_match :: "regex \<Rightarrow> string \<Rightarrow> (string list \<times> string) option" where
  "re_match r s = bt r s ([], [])"

text \<open>
  \<^verbatim>\<open>pattern.search(s)\<close>: the match at the leftmost position that has one; the
  value is the list of its groups (\<^verbatim>\<open>res.group(1)\<close> is the first element).
\<close>

fun re_search :: "regex \<Rightarrow> string \<Rightarrow> string list option" where
  "re_search r [] = map_option fst (re_match r [])"
| "re_search r (c # cs) =
     (case re_match r (c # cs) of
        Some (g, rest) \<Rightarrow> Some g
      | None \<Rightarrow> re_search r cs)"

text \<open>
  A replacement template is text with group references (\<^verbatim>\<open>\1\<close>); a reference to
  a group that the match does not have expands to nothing.
\<close>

datatype tpart = TLit string | TGroup nat

type_synonym template = "tpart list"

fun expand :: "template \<Rightarrow> string list \<Rightarrow> string" where
  "expand [] g = []"
| "expand (TLit s # t) g = s @ expand t g"
| "expand (TGroup n # t) g =
     (if 0 < n \<and> n \<le> length g then g ! (n - 1) else []) @ expand t g"

text \<open>
  \<^verbatim>\<open>pattern.sub(template, s)\<close>: the leftmost matches that do not overlap are
  replaced, from left to right; the text between them is copied.  After a match the
  scan goes on behind it.  A match of no characters is replaced and the scan moves
  one character on; the patterns of this program never match the empty text
  (lemma \<open>hdr_match_consumes\<close> below).
\<close>

function re_sub :: "regex \<Rightarrow> template \<Rightarrow> string \<Rightarrow> string" where
  "re_sub r t [] = (case re_match r [] of Some (g, rest) \<Rightarrow> expand t g | None \<Rightarrow> [])"
| "re_sub r t (c # cs) =
     (case re_match r (c # cs) of
        Some (g, rest) \<Rightarrow>
          if length rest < length (c # cs) then expand t g @ re_sub r t rest
          else expand t g @ c # re_sub r t cs
      | None \<Rightarrow> c # re_sub r t cs)"
  by pat_completeness auto
termination
  by (relation "measure (\<lambda>(r, t, s). length s)") auto

section \<open>The two header patterns, and the years on a line\<close>

text \<open>
  \<^verbatim>\<open>CheckSimple = re.compile(r"Copyright *(?:\(c\))? *(\d{4}),? *NVIDIA C(?:ORPORATION|orporation)")\<close>
  and \<^verbatim>\<open>CheckDouble\<close>, the same with \<^verbatim>\<open>(\d{4})-(\d{4})\<close> for the years.
\<close>

definition CheckSimple :: regex where
  "CheckSimple =
     [Lit ''Copyright'', Star CHR '' '', Opt [Lit ''(c)''], Star CHR '' '',
      GOpen, Digit, Digit, Digit, Digit, GClose,
      Opt [Lit '',''], Star CHR '' '',
      Lit ''NVIDIA C'', Alt [Lit ''ORPORATION''] [Lit ''orporation'']]"

definition CheckDouble :: regex where
  "CheckDouble =
     [Lit ''Copyright'', Star CHR '' '', Opt [Lit ''(c)''], Star CHR '' '',
      GOpen, Digit, Digit, Digit, Digit, GClose, Lit ''-'',
      GOpen, Digit, Digit, Digit, Digit, GClose,
      Opt [Lit '',''], Star CHR '' '',
      Lit ''NVIDIA C'', Alt [Lit ''ORPORATION''] [Lit ''orporation'']]"

text \<open>\<^verbatim>\<open>int(s)\<close> on a string of decimal digits.\<close>

definition digit_val :: "char \<Rightarrow> int" where
  "digit_val c = int (of_char c) - 48"

definition py_int :: "string \<Rightarrow> int" where
  "py_int s = foldl (\<lambda>a c. 10 * a + digit_val c) 0 s"

text \<open>
  \<^verbatim>\<open>getCopyrightYears(line)\<close>: the single-year pattern is searched first, then the
  range pattern; \<open>None\<close> is the pair \<^verbatim>\<open>(None, None)\<close>.
\<close>

definition getCopyrightYears :: "string \<Rightarrow> (int \<times> int) option" where
  "getCopyrightYears line =
     (case re_search CheckSimple line of
        Some g \<Rightarrow> Some (py_int (g ! 0), py_int (g ! 0))
      | None \<Rightarrow>
          (case re_search CheckDouble line of
             Some g \<Rightarrow> Some (py_int (g ! 0), py_int (g ! 1))
           | None \<Rightarrow> None))"

text \<open>
  \<^verbatim>\<open>f"{n:04d}"\<close>: the decimal digits of \<open>n\<close>, filled with zeros on the left to four
  characters, the sign included in the four.
\<close>

definition digit_char :: "nat \<Rightarrow> char" where
  "digit_char d = ''0123456789'' ! d"

function dec_digits :: "nat \<Rightarrow> string" where
  "dec_digits n =
     (if n < 10 then [digit_char n] else dec_digits (n div 10) @ [digit_char (n mod 10)])"
  by pat_completeness auto
termination
  by (relation "measure (\<lambda>n. n)") auto

definition zfill :: "nat \<Rightarrow> string \<Rightarrow> string" where
  "zfill w s = replicate (w - length s) CHR ''0'' @ s"

definition fmt04d :: "int \<Rightarrow> string" where
  "fmt04d n =
     (if n < 0 then CHR ''-'' # zfill 3 (dec_digits (nat (- n)))
      else zfill 4 (dec_digits (nat n)))"

text \<open>The header in its canonical form, as both replacement templates write it.\<close>

definition canonical :: "string \<Rightarrow> string \<Rightarrow> string" where
  "canonical a b = ''Copyright (c) '' @ a @ ''-'' @ b @ '', NVIDIA CORPORATION''"

text \<open>
  \<^verbatim>\<open>replaceCurrentYear(line, start, end)\<close>: first every single-year header is put
  in range form with its own year twice (\<^verbatim>\<open>r"Copyright (c) \1-\1, NVIDIA CORPORATION"\<close>),
  then every range header in the result is replaced by the canonical header with
  the given years.
\<close>

definition simple_to_double :: template where
  "simple_to_double =
     [TLit ''Copyright (c) '', TGroup 1, TLit ''-'', TGroup 1, TLit '', NVIDIA CORPORATION'']"

definition year_template :: "int \<Rightarrow> int \<Rightarrow> template" where
  "year_template start end = [TLit (canonical (fmt04d start) (fmt04d end))]"

definition replaceCurrentYear :: "string \<Rightarrow> int \<Rightarrow> int \<Rightarrow> string" where
  "replaceCurrentYear line start end =
     re_sub CheckDouble (year_template start end) (re_sub CheckSimple simple_to_double line)"

section \<open>Files, lines and issues\<close>

text \<open>
  The checker reads a candidate either from disk (a path) or from a \<^verbatim>\<open>git.Diff\<close>,
  whose \<^verbatim>\<open>b_blob\<close> is the staged content and whose \<^verbatim>\<open>b_path\<close> names the file.
  The world it runs in is the content of the files on disk (the decoded text of each
  existing file) and what has been printed.  Each \<^verbatim>\<open>print\<close> of the program is one
  event that carries the values printed.
\<close>

record diff =
  b_path :: string
  b_blob :: string

datatype source = Path string | Diff diff

text \<open>An issue is the list \<^verbatim>\<open>[path, lineNum, message, replacement]\<close>.\<close>

type_synonym issue = "string \<times> int \<times> string \<times> string option"

definition issue_line :: "issue \<Rightarrow> int" where
  "issue_line e = fst (snd e)"

definition issue_message :: "issue \<Rightarrow> string" where
  "issue_message e = fst (snd (snd e))"

definition issue_replacement :: "issue \<Rightarrow> string option" where
  "issue_replacement e = snd (snd (snd e))"

definition msg_inverted :: string where
  "msg_inverted =
     ''First year after second year in the copyright header (manual fix required)''"

definition msg_not_current :: string where
  "msg_not_current = ''Current year not included in the copyright header''"

definition msg_missing :: string where
  "msg_missing =
     ''Copyright header missing or formatted incorrectly (manual fix required)''"

datatype error =
    FileNotFoundError string
  | IndexError
  | ValueError string
  | GitError

datatype event =
    RegexError string
  | ModifiedFilesInfo "diff list"
  | CheckingFiles "source list"
  | ChangingLines string "int list"
  | HeadersIncomplete
  | IssueLine string int string
  | BlankLine
  | FixHint nat

record world =
  files :: "string \<rightharpoonup> string"
  stdout :: "event list"

text \<open>
  \<^verbatim>\<open>open(f, encoding="utf-8")\<close> reads in text mode with universal newlines: every
  \<^verbatim>\<open>\r\n\<close> and every lone \<^verbatim>\<open>\r\<close> arrives as \<^verbatim>\<open>\n\<close>.  \<^verbatim>\<open>readlines\<close> cuts the text
  behind each \<^verbatim>\<open>\n\<close>.
\<close>

fun universal_newlines :: "string \<Rightarrow> string" where
  "universal_newlines [] = []"
| "universal_newlines [c] = (if c = CR then [LF] else [c])"
| "universal_newlines (c # d # cs) =
     (if c = CR \<and> d = LF then LF # universal_newlines cs
      else if c = CR then LF # universal_newlines (d # cs)
      else c # universal_newlines (d # cs))"

fun readlines :: "string \<Rightarrow> string list" where
  "readlines [] = []"
| "readlines (c # cs) =
     (if c = LF then [c] # readlines cs
      else (case readlines cs of [] \<Rightarrow> [[c]] | l # ls \<Rightarrow> (c # l) # ls))"

text \<open>
  \<^verbatim>\<open>str.splitlines(keepends=True)\<close> cuts behind every line boundary and keeps it:
  \<^verbatim>\<open>\n\<close>, \<^verbatim>\<open>\r\<close>, \<^verbatim>\<open>\r\n\<close>, \<^verbatim>\<open>\v\<close>, \<^verbatim>\<open>\f\<close>, \<^verbatim>\<open>\x1c\<close>, \<^verbatim>\<open>\x1d\<close>, \<^verbatim>\<open>\x1e\<close> and \<^verbatim>\<open>\x85\<close>
  among the characters of the model.
\<close>

definition is_line_boundary :: "char \<Rightarrow> bool" where
  "is_line_boundary c =
     (c \<in> {LF, CR, CHR 0x0B, CHR 0x0C, CHR 0x1C, CHR 0x1D, CHR 0x1E, CHR 0x85})"

fun splitlines_keepends :: "string \<Rightarrow> string list" where
  "splitlines_keepends [] = []"
| "splitlines_keepends [c] = [[c]]"
| "splitlines_keepends (c # d # cs) =
     (if c = CR \<and> d = LF then [c, d] # splitlines_keepends cs
      else if is_line_boundary c then [c] # splitlines_keepends (d # cs)
      else (case splitlines_keepends (d # cs) of
              [] \<Rightarrow> [[c]]
            | l # ls \<Rightarrow> (c # l) # ls))"

definition source_path :: "source \<Rightarrow> string" where
  "source_path f = (case f of Diff d \<Rightarrow> b_path d | Path p \<Rightarrow> p)"

definition read_lines :: "world \<Rightarrow> source \<Rightarrow> error + string list" where
  "read_lines w f =
     (case f of
        Diff d \<Rightarrow> Inr (splitlines_keepends (b_blob d))
      | Path p \<Rightarrow>
          (case files w p of
             None \<Rightarrow> Inl (FileNotFoundError p)
           | Some content \<Rightarrow> Inr (readlines (universal_newlines content))))"

section \<open>checkCopyright\<close>

text \<open>
  The scan of the lines keeps the four variables of the loop.  One step is the body
  of \<^verbatim>\<open>for line in lines\<close>.
\<close>

record scan =
  errs :: "issue list"
  lineNum :: int
  crFound :: bool
  yearMatched :: bool

definition scan_init :: scan where
  "scan_init = \<lparr>errs = [], lineNum = 0, crFound = False, yearMatched = False\<rparr>"

definition check_line :: "int \<Rightarrow> string \<Rightarrow> scan \<Rightarrow> string \<Rightarrow> scan" where
  "check_line thisYear path st line =
     (let n = lineNum st + 1; st1 = st\<lparr>lineNum := n\<rparr> in
      case getCopyrightYears line of
        None \<Rightarrow> st1
      | Some (start, end) \<Rightarrow>
          let st2 = st1\<lparr>crFound := True\<rparr>;
              st3 = (if start > end
                     then st2\<lparr>errs := errs st2 @ [(path, n, msg_inverted, None)]\<rparr>
                     else st2)
          in
            if thisYear < start \<or> thisYear > end then
              let r1 = (if thisYear < start
                        then Some (replaceCurrentYear line thisYear end) else None);
                  r2 = (if thisYear > end
                        then Some (replaceCurrentYear line start thisYear) else r1)
              in st3\<lparr>errs := errs st3 @ [(path, n, msg_not_current, r2)]\<rparr>
            else st3\<lparr>yearMatched := True\<rparr>)"

definition scan_lines :: "int \<Rightarrow> string \<Rightarrow> string list \<Rightarrow> scan" where
  "scan_lines thisYear path lines = foldl (check_line thisYear path) scan_init lines"

text \<open>The issues the call returns: the missing header, then the suppression.\<close>

definition final_errs :: "string \<Rightarrow> scan \<Rightarrow> issue list" where
  "final_errs path st =
     (let errs1 = (if \<not> crFound st then errs st @ [(path, 0, msg_missing, None)]
                   else errs st)
      in if yearMatched st then [] else errs1)"

text \<open>
  \<^verbatim>\<open>lines[i] = v\<close>: a negative index counts from the end, an index out of range
  raises.
\<close>

definition py_setitem :: "'a list \<Rightarrow> int \<Rightarrow> 'a \<Rightarrow> error + 'a list" where
  "py_setitem xs i v =
     (let n = int (length xs); j = (if i < 0 then n + i else i)
      in if 0 \<le> j \<and> j < n then Inr (xs[nat j := v]) else Inl IndexError)"

fun apply_updates :: "issue list \<Rightarrow> string list \<Rightarrow> error + string list" where
  "apply_updates [] lines = Inr lines"
| "apply_updates ((p, n, m, r) # es) lines =
     (case r of
        None \<Rightarrow> apply_updates es lines
      | Some replacement \<Rightarrow>
          (case py_setitem lines (n - 1) replacement of
             Inl e \<Rightarrow> Inl e
           | Inr lines' \<Rightarrow> apply_updates es lines'))"

text \<open>
  \<^verbatim>\<open>open(path, "w", encoding="utf-8")\<close> and the writes of all lines: the file holds
  the lines one after the other (on POSIX, where the checker runs, a written
  \<^verbatim>\<open>\n\<close> stays \<^verbatim>\<open>\n\<close>).  A file that does not exist is created.
\<close>

definition write_lines :: "string \<Rightarrow> string list \<Rightarrow> world \<Rightarrow> world" where
  "write_lines path lines w = w\<lparr>files := (files w)(path \<mapsto> concat lines)\<rparr>"

definition print :: "event \<Rightarrow> world \<Rightarrow> world" where
  "print e w = w\<lparr>stdout := stdout w @ [e]\<rparr>"

definition fixable :: "issue list \<Rightarrow> issue list" where
  "fixable es = filter (\<lambda>x. issue_replacement x \<noteq> None) es"

text \<open>
  \<^verbatim>\<open>checkCopyright(f, update_current_year)\<close>, with the year of
  \<^verbatim>\<open>datetime.datetime.now()\<close> as \<open>thisYear\<close>.  The result is the exception raised or
  the list returned, and the world after the call.
\<close>

definition checkCopyright ::
  "int \<Rightarrow> source \<Rightarrow> bool \<Rightarrow> world \<Rightarrow> (error + issue list) \<times> world" where
  "checkCopyright thisYear f update_current_year w =
     (case read_lines w f of
        Inl e \<Rightarrow> (Inl e, w)
      | Inr lines \<Rightarrow>
          let path = source_path f;
              es = final_errs path (scan_lines thisYear path lines)
          in
            if update_current_year \<and> fixable es \<noteq> [] then
              let w1 = print (ChangingLines path (map issue_line (fixable es))) w in
              (case apply_updates (fixable es) lines of
                 Inl e \<Rightarrow> (Inl e, w1)
               | Inr lines' \<Rightarrow> (Inr es, write_lines path lines' w1))
            else (Inr es, w))"

section \<open>Selecting the files and the main function\<close>

text \<open>
  \<^verbatim>\<open>FilesToCheck\<close>, the patterns of the names that are checked, for example
  \<^verbatim>\<open>[.](cmake|cpp|cu|cuh|h|hpp|sh|pxd|py|pyx)$\<close>.
\<close>

definition FilesToCheck :: "regex list" where
  "FilesToCheck =
     [[Lit ''.'', GOpen,
       Alt [Lit ''cmake''] [Alt [Lit ''cpp''] [Alt [Lit ''cu''] [Alt [Lit ''cuh'']
         [Alt [Lit ''h''] [Alt [Lit ''hpp''] [Alt [Lit ''sh''] [Alt [Lit ''pxd'']
           [Alt [Lit ''py''] [Lit ''pyx'']]]]]]]]],
       GClose, Dollar],
      [Lit ''CMakeLists'', Lit ''.'', Lit ''txt'', Dollar],
      [Lit ''CMakeLists_standalone'', Lit ''.'', Lit ''txt'', Dollar],
      [Lit ''setup'', Lit ''.'', Lit ''cfg'', Dollar],
      [Lit ''.'', Lit ''flake8'', Lit ''.'', Lit ''cython'', Dollar],
      [Lit ''meta'', Lit ''.'', Lit ''yaml'', Dollar]]"

text \<open>The value of the global \<^verbatim>\<open>ExemptFiles\<close> when the module is loaded.\<close>

definition ExemptFiles :: "string list" where
  "ExemptFiles = [''cpp/include/cudf_test/cxxopts.hpp'']"

text \<open>
  What the run takes from its platform: which paths are directories, the file paths
  \<^verbatim>\<open>os.walk\<close> yields under a root (each already joined with its directory),
  \<^verbatim>\<open>os.path.abspath\<close>, the outcome of \<^verbatim>\<open>modifiedFiles()\<close> (the diffs with a
  \<^verbatim>\<open>b_path\<close>, in the order the set is iterated, or the exception of the git
  library), \<^verbatim>\<open>re.compile\<close> (\<open>None\<close> when it raises \<^verbatim>\<open>re.error\<close>), and the
  components of the absolute path of the script.
\<close>

record env =
  isdir :: "string \<Rightarrow> bool"
  walk :: "string \<Rightarrow> string list"
  abspath :: "string \<Rightarrow> string"
  modifiedFiles :: "error + diff list"
  re_compile :: "string \<Rightarrow> regex option"
  script_path_parts :: "string list"

record args =
  update_current_year :: bool
  git_modified_only :: bool

text \<open>
  \<^verbatim>\<open>checkThisFile(f)\<close>, with the compiled exemptions: the file must exist and not
  be empty, match no exemption and match one of \<^verbatim>\<open>FilesToCheck\<close>.
\<close>

definition checkThisFile :: "regex list \<Rightarrow> world \<Rightarrow> source \<Rightarrow> bool" where
  "checkThisFile exempt w f =
     (let p = source_path f in
      if files w p = None \<or> files w p = Some [] then False
      else if list_ex (\<lambda>e. re_search e p \<noteq> None) exempt then False
      else list_ex (\<lambda>c. re_search c p \<noteq> None) FilesToCheck)"

definition getAllFilesUnderDir :: "env \<Rightarrow> string \<Rightarrow> (string \<Rightarrow> bool) \<Rightarrow> string list" where
  "getAllFilesUnderDir e root pathFilter = filter pathFilter (walk e root)"

text \<open>The list comprehension that compiles the exemptions stops at the first error.\<close>

fun compile_all :: "(string \<Rightarrow> regex option) \<Rightarrow> string list \<Rightarrow> string + regex list" where
  "compile_all rc [] = Inr []"
| "compile_all rc (p # ps) =
     (case rc p of
        None \<Rightarrow> Inl p
      | Some r \<Rightarrow> (case compile_all rc ps of Inl q \<Rightarrow> Inl q | Inr rs \<Rightarrow> Inr (r # rs)))"

text \<open>The loop over the directory arguments: the first one that is no directory raises.\<close>

fun files_under_dirs ::
  "env \<Rightarrow> (string \<Rightarrow> bool) \<Rightarrow> string list \<Rightarrow> error + string list" where
  "files_under_dirs e pathFilter [] = Inr []"
| "files_under_dirs e pathFilter (d # ds) =
     (if \<not> isdir e d then Inl (ValueError (d @ '' is not a directory.''))
      else (case files_under_dirs e pathFilter ds of
              Inl x \<Rightarrow> Inl x
            | Inr found \<Rightarrow> Inr (getAllFilesUnderDir e d pathFilter @ found)))"

definition select_files ::
  "env \<Rightarrow> args \<Rightarrow> string list \<Rightarrow> regex list \<Rightarrow> world \<Rightarrow> (error + source list) \<times> world" where
  "select_files e a dirs exempt w =
     (if git_modified_only a then
        (case modifiedFiles e of
           Inl x \<Rightarrow> (Inl x, w)
         | Inr ds \<Rightarrow>
             let fs = filter (checkThisFile exempt w) (map Diff ds)
             in (Inr fs, print (CheckingFiles fs) (print (ModifiedFilesInfo ds) w)))
      else
        (case files_under_dirs e (\<lambda>p. checkThisFile exempt w (Path p)) (map (abspath e) dirs) of
           Inl x \<Rightarrow> (Inl x, w)
         | Inr ps \<Rightarrow> (Inr (map Path ps), w)))"

text \<open>\<^verbatim>\<open>for f in files: errors += checkCopyright(f, args.update_current_year)\<close>\<close>

fun check_files ::
  "int \<Rightarrow> bool \<Rightarrow> source list \<Rightarrow> world \<Rightarrow> (error + issue list) \<times> world" where
  "check_files thisYear upd [] w = (Inr [], w)"
| "check_files thisYear upd (f # fs) w =
     (case checkCopyright thisYear f upd w of
        (Inl x, w1) \<Rightarrow> (Inl x, w1)
      | (Inr es, w1) \<Rightarrow>
          (case check_files thisYear upd fs w1 of
             (Inl x, w2) \<Rightarrow> (Inl x, w2)
           | (Inr es', w2) \<Rightarrow> (Inr (es @ es'), w2)))"

text \<open>
  The report, when there are errors.  \<^verbatim>\<open>path_parts.index("ci")\<close> raises
  \<^verbatim>\<open>ValueError\<close> when the path of the script has no component \<^verbatim>\<open>ci\<close>.
\<close>

definition report :: "env \<Rightarrow> issue list \<Rightarrow> world \<Rightarrow> (error + int) \<times> world" where
  "report e errors w =
     (if errors \<noteq> [] then
        let w1 = (if list_ex (\<lambda>x. issue_replacement x = None) errors
                  then print HeadersIncomplete w else w);
            w2 = foldl (\<lambda>v x. print (IssueLine (fst x) (issue_line x) (issue_message x)) v)
                   w1 errors;
            w3 = print BlankLine w2;
            n_fixable = length (fixable errors)
        in
          if ''ci'' \<notin> set (script_path_parts e) then (Inl (ValueError ''ci''), w3)
          else (Inr 1, if n_fixable > 0 then print (FixHint n_fixable) w3 else w3)
      else (Inr 0, w))"

text \<open>
  \<^verbatim>\<open>checkCopyright_main()\<close>: \<open>dirs\<close> are the positional arguments and
  \<open>exempt_patterns\<close> is the value of the global \<^verbatim>\<open>ExemptFiles\<close> on entry.
\<close>

definition checkCopyright_main ::
  "env \<Rightarrow> int \<Rightarrow> args \<Rightarrow> string list \<Rightarrow> string list \<Rightarrow> world \<Rightarrow> (error + int) \<times> world" where
  "checkCopyright_main e thisYear a dirs exempt_patterns w =
     (case compile_all (re_compile e) exempt_patterns of
        Inl p \<Rightarrow> (Inr 1, print (RegexError p) w)
      | Inr exempt \<Rightarrow>
          (case select_files e a dirs exempt w of
             (Inl x, w1) \<Rightarrow> (Inl x, w1)
           | (Inr fs, w1) \<Rightarrow>
               (case check_files thisYear (update_current_year a) fs w1 of
                  (Inl x, w2) \<Rightarrow> (Inl x, w2)
                | (Inr errors, w2) \<Rightarrow> report e errors w2)))"

text \<open>
  \<^verbatim>\<open>sys.exit(checkCopyright_main())\<close>: the status of the process is the value
  returned, and 1 when an exception leaves the function.
\<close>

definition exit_status :: "error + int \<Rightarrow> int" where
  "exit_status r = (case r of Inl x \<Rightarrow> 1 | Inr v \<Rightarrow> v)"

section \<open>Notions used in the statements and proofs\<close>

text \<open>
  A header, read from left to right without backtracking: the literal, blanks, an
  optional \<^verbatim>\<open>(c)\<close>, blanks, the years, an optional comma, blanks and the company.
  \<open>match_simple\<close> and \<open>match_double\<close> are shown below to be what the matcher
  computes on \<open>CheckSimple\<close> and \<open>CheckDouble\<close>; nothing of the model is defined
  through them.
\<close>

definition skip :: "string \<Rightarrow> string" where
  "skip s = dropWhile (\<lambda>c. c = CHR '' '') s"

definition strip :: "string \<Rightarrow> string \<Rightarrow> string option" where
  "strip l s = (if take (length l) s = l then Some (drop (length l) s) else None)"

definition opt_strip :: "string \<Rightarrow> string \<Rightarrow> string" where
  "opt_strip l s = (case strip l s of Some r \<Rightarrow> r | None \<Rightarrow> s)"

definition digits4 :: "string \<Rightarrow> (string \<times> string) option" where
  "digits4 s =
     (if 4 \<le> length s \<and> list_all is_digit (take 4 s) then Some (take 4 s, drop 4 s) else None)"

definition hdr_head :: "string \<Rightarrow> string option" where
  "hdr_head s =
     (case strip ''Copyright'' s of
        None \<Rightarrow> None
      | Some r \<Rightarrow> Some (skip (opt_strip ''(c)'' (skip r))))"

definition hdr_tail :: "string \<Rightarrow> string option" where
  "hdr_tail s =
     (case strip ''NVIDIA C'' (skip (opt_strip '','' s)) of
        None \<Rightarrow> None
      | Some r \<Rightarrow>
          (case strip ''ORPORATION'' r of Some r' \<Rightarrow> Some r' | None \<Rightarrow> strip ''orporation'' r))"

definition match_simple :: "string \<Rightarrow> (string list \<times> string) option" where
  "match_simple s =
     (case hdr_head s of
        None \<Rightarrow> None
      | Some r \<Rightarrow>
          (case digits4 r of
             None \<Rightarrow> None
           | Some (y, r1) \<Rightarrow>
               (case hdr_tail r1 of None \<Rightarrow> None | Some r2 \<Rightarrow> Some ([y], r2))))"

definition match_double :: "string \<Rightarrow> (string list \<times> string) option" where
  "match_double s =
     (case hdr_head s of
        None \<Rightarrow> None
      | Some r \<Rightarrow>
          (case digits4 r of
             None \<Rightarrow> None
           | Some (a, r1) \<Rightarrow>
               (case strip ''-'' r1 of
                  None \<Rightarrow> None
                | Some r2 \<Rightarrow>
                    (case digits4 r2 of
                       None \<Rightarrow> None
                     | Some (b, r3) \<Rightarrow>
                         (case hdr_tail r3 of None \<Rightarrow> None | Some r4 \<Rightarrow> Some ([a, b], r4))))))"

text \<open>The text of a header, from its parts.\<close>

definition sp :: "nat \<Rightarrow> string" where
  "sp n = replicate n CHR '' ''"

definition hdr_pre :: "nat \<Rightarrow> bool \<Rightarrow> nat \<Rightarrow> string" where
  "hdr_pre n1 c n2 = ''Copyright'' @ sp n1 @ (if c then ''(c)'' else []) @ sp n2"

definition hdr_post :: "bool \<Rightarrow> nat \<Rightarrow> bool \<Rightarrow> string" where
  "hdr_post comma n3 up =
     (if comma then '','' else []) @ sp n3 @ ''NVIDIA C'' @
     (if up then ''ORPORATION'' else ''orporation'')"

definition year4 :: "string \<Rightarrow> bool" where
  "year4 y = (length y = 4 \<and> list_all is_digit y)"

definition is_hdr :: "string \<Rightarrow> bool" where
  "is_hdr m =
     (\<exists>u corp. m = ''Copy'' @ u @ ''C'' @ corp \<and>
        CHR ''C'' \<notin> set u \<and> CHR ''y'' \<notin> set u \<and> LF \<notin> set u \<and> CR \<notin> set u \<and>
        (corp = ''ORPORATION'' \<or> corp = ''orporation''))"

text \<open>
  A pattern all of whose matches are headers and do not depend on the text behind
  them; and two texts that are equal up to and including the first four characters
  of some \<^verbatim>\<open>Copyright\<close>.
\<close>

definition hdr_regex :: "regex \<Rightarrow> bool" where
  "hdr_regex r =
     (\<forall>s g rest. re_match r s = Some (g, rest) \<longrightarrow>
        (\<exists>m. s = m @ rest \<and> is_hdr m \<and> (\<forall>z. re_match r (m @ z) = Some (g, z))))"

definition agree :: "string \<Rightarrow> string \<Rightarrow> bool" where
  "agree a b = (a = b \<or> (\<exists>u x y. a = u @ ''Copy'' @ x \<and> b = u @ ''Copy'' @ y))"

text \<open>
  The rewriting the specification describes: the text is read from left to right,
  every header of either form is replaced by the new text, and every other
  character is copied.
\<close>

definition header_at :: "string \<Rightarrow> string option" where
  "header_at s =
     (case re_match CheckSimple s of
        Some (g, rest) \<Rightarrow> Some rest
      | None \<Rightarrow>
          (case re_match CheckDouble s of Some (g, rest) \<Rightarrow> Some rest | None \<Rightarrow> None))"

function rewrite_headers :: "string \<Rightarrow> string \<Rightarrow> string" where
  "rewrite_headers new [] = []"
| "rewrite_headers new (c # cs) =
     (case header_at (c # cs) of
        Some rest \<Rightarrow>
          if length rest < length (c # cs) then new @ rewrite_headers new rest
          else c # rewrite_headers new cs
      | None \<Rightarrow> c # rewrite_headers new cs)"
  by pat_completeness auto
termination
  by (relation "measure (\<lambda>(new, s). length s)") auto

text \<open>
  What the claims speak of: a line on which \<^verbatim>\<open>getCopyrightYears\<close> finds years, a line
  whose years include the current year, and the issues one line adds to the list.
\<close>

definition matched :: "string \<Rightarrow> bool" where
  "matched line = (getCopyrightYears line \<noteq> None)"

definition validates :: "int \<Rightarrow> string \<Rightarrow> bool" where
  "validates thisYear line =
     (case getCopyrightYears line of
        None \<Rightarrow> False
      | Some (start, end) \<Rightarrow> start \<le> thisYear \<and> thisYear \<le> end)"

definition line_issues :: "int \<Rightarrow> string \<Rightarrow> int \<Rightarrow> string \<Rightarrow> issue list" where
  "line_issues thisYear path n line =
     (case getCopyrightYears line of
        None \<Rightarrow> []
      | Some (start, end) \<Rightarrow>
          (if start > end then [(path, n, msg_inverted, None)] else []) @
          (if thisYear > end
             then [(path, n, msg_not_current, Some (replaceCurrentYear line start thisYear))]
           else if thisYear < start
             then [(path, n, msg_not_current, Some (replaceCurrentYear line thisYear end))]
           else []))"

fun issues_from :: "int \<Rightarrow> string \<Rightarrow> int \<Rightarrow> string list \<Rightarrow> issue list" where
  "issues_from y p n [] = []"
| "issues_from y p n (l # ls) = line_issues y p (n + 1) l @ issues_from y p (n + 1) ls"

text \<open>Example worlds: one file \<^verbatim>\<open>a.py\<close> with the given content, nothing printed.\<close>

definition ex_world :: "string \<Rightarrow> world" where
  "ex_world content = \<lparr>files = [''a.py'' \<mapsto> content], stdout = []\<rparr>"

definition two_headers :: string where
  "two_headers =
     ''# Copyright (c) 2030-2010, NVIDIA CORPORATION'' @ [LF] @
     ''# Copyright (c) 2019-2024, NVIDIA CORPORATION'' @ [LF]"

definition no_header :: string where
  "no_header = ''import os'' @ [LF] @ ''# Copyright 2019 NVIDIA'' @ [LF]"

text \<open>
  The line the update writes in place of a line: the replacement of the last issue
  the line gets, the line itself when it gets none.
\<close>

definition fix_line :: "int \<Rightarrow> string \<Rightarrow> string" where
  "fix_line thisYear line =
     (case getCopyrightYears line of
        None \<Rightarrow> line
      | Some (start, end) \<Rightarrow>
          if thisYear > end then replaceCurrentYear line start thisYear
          else if thisYear < start then replaceCurrentYear line thisYear end
          else line)"

text \<open>Example lines and files.\<close>

definition stale_single :: string where
  "stale_single = ''Copyright (c) 2019, NVIDIA CORPORATION''"

definition future_range :: string where
  "future_range = ''// Copyright 2030-2031 NVIDIA Corporation'' @ [LF]"

definition inverted_past :: string where
  "inverted_past = ''# Copyright (c) 2022-2019, NVIDIA CORPORATION'' @ [LF]"

definition inverted_around :: string where
  "inverted_around = ''# Copyright (c) 2030-2010, NVIDIA CORPORATION'' @ [LF]"

definition mixed_line :: string where
  "mixed_line = ''/* Copyright 2019 NVIDIA Corporation; Copyright(c)2001-2002,NVIDIA CORPORATION */''"


text \<open>
  An example platform.  Its \<open>re_compile\<close> handles the patterns made of ordinary
  characters and dots, as the exemption of the program is, and fails on a pattern
  with an opening parenthesis (\<^verbatim>\<open>re.compile("(")\<close> raises \<^verbatim>\<open>re.error\<close>).
\<close>

definition compile_plain :: "string \<Rightarrow> regex option" where
  "compile_plain p =
     (if CHR ''('' \<in> set p then None
      else Some (map (\<lambda>c. if c = CHR ''.'' then AnyChar else Lit [c]) p))"


definition ex_env :: env where
  "ex_env =
     \<lparr>isdir = (\<lambda>p. p = ''/repo''),
      walk = (\<lambda>p. if p = ''/repo'' then [''/repo/a.py'', ''/repo/notes.txt''] else []),
      abspath = (\<lambda>p. ''/'' @ p),
      modifiedFiles = Inr [],
      re_compile = compile_plain,
      script_path_parts = ['''', ''repo'', ''ci'', ''checks'', ''copyright.py'']\<rparr>"

definition repo_world :: "string \<Rightarrow> world" where
  "repo_world content =
     \<lparr>files = [''/repo/a.py'' \<mapsto> content, ''/repo/notes.txt'' \<mapsto> ''no header here''],
      stdout = []\<rparr>"

definition dirs_mode :: args where
  "dirs_mode = \<lparr>update_current_year = False, git_modified_only = False\<rparr>"

definition git_mode :: args where
  "git_mode = \<lparr>update_current_year = False, git_modified_only = True\<rparr>"

text \<open>
  The lines \<^verbatim>\<open>readlines\<close> returns: none is empty, a line feed stands only at the end
  of a line, and every line but the last ends with one.
\<close>

fun line_list :: "string list \<Rightarrow> bool" where
  "line_list [] = True"
| "line_list [l] = (l \<noteq> [] \<and> LF \<notin> set (butlast l))"
| "line_list (l # ls) = (l \<noteq> [] \<and> LF \<notin> set (butlast l) \<and> last l = LF \<and> line_list ls)"

text \<open>
  What C7 asks of the file before and after an update, on the lines as they stand
  on disk with their terminators: the same number of lines, and every line whose
  number is not that of a fixed issue is identical.
\<close>

definition other_lines_identical :: "string \<Rightarrow> string \<Rightarrow> int list \<Rightarrow> bool" where
  "other_lines_identical before after fixed =
     (let b = splitlines_keepends before; a = splitlines_keepends after in
      length a = length b \<and>
      (\<forall>i \<in> set [0..<length b]. int i + 1 \<notin> set fixed \<longrightarrow> a ! i = b ! i))"

definition crlf_file :: string where
  "crlf_file =
     ''import os'' @ [CR, LF] @ ''# Copyright (c) 2019, NVIDIA CORPORATION'' @ [CR, LF]"

definition os_line :: string where
  "os_line = ''import os'' @ [LF]"

definition stale_line :: string where
  "stale_line = ''# Copyright (c) 2019, NVIDIA CORPORATION'' @ [LF]"

definition fixed_line :: string where
  "fixed_line = ''# Copyright (c) 2019-2024, NVIDIA CORPORATION'' @ [LF]"

definition lf_file :: string where
  "lf_file = os_line @ stale_line"

text \<open>
  The bytes of a file.  Both \<^verbatim>\<open>open\<close> calls name the encoding \<^verbatim>\<open>utf-8\<close>, and
  \<^verbatim>\<open>decode()\<close> of the blob uses it by default: the text read is the decoding of the
  bytes on disk and the bytes written are the encoding of the text.  On the
  characters of the model a code point below 128 is one byte and the others are two.
  A world holds the decoded text of every file, so the bytes of a file are the
  encoding of its text.
\<close>

definition utf8_encode_char :: "char \<Rightarrow> string" where
  "utf8_encode_char c =
     (if (of_char c :: nat) < 128 then [c]
      else [char_of (192 + (of_char c :: nat) div 64), char_of (128 + (of_char c :: nat) mod 64)])"

definition utf8_encode :: "string \<Rightarrow> string" where
  "utf8_encode t = concat (map utf8_encode_char t)"

fun utf8_decode :: "string \<Rightarrow> string option" where
  "utf8_decode [] = Some []"
| "utf8_decode [b] = (if (of_char b :: nat) < 128 then Some [b] else None)"
| "utf8_decode (b # b2 # bs) =
     (if (of_char b :: nat) < 128 then map_option ((#) b) (utf8_decode (b2 # bs))
      else if ((of_char b :: nat) = 194 \<or> (of_char b :: nat) = 195) \<and>
              128 \<le> (of_char b2 :: nat) \<and> (of_char b2 :: nat) < 192
        then map_option ((#) (char_of (((of_char b :: nat) - 192) * 64 + ((of_char b2 :: nat) - 128))))
               (utf8_decode bs)
      else None)"

definition file_bytes :: "world \<Rightarrow> string \<rightharpoonup> string" where
  "file_bytes w p = map_option utf8_encode (files w p)"

text \<open>
  A working file with a line that is not staged, the diff of its staged content, and
  a diff whose path is not on disk.
\<close>

definition edited_file :: string where
  "edited_file = stale_line @ ''x = 1'' @ [LF]"

definition staged_diff :: diff where
  "staged_diff = \<lparr>b_path = ''a.py'', b_blob = stale_line\<rparr>"

definition new_path_diff :: diff where
  "new_path_diff = \<lparr>b_path = ''b.py'', b_blob = stale_line\<rparr>"

section \<open>The matcher on the two patterns\<close>

declare bt.simps [simp del]

lemma strip_SomeD:
  assumes "strip l s = Some r"
  shows "s = l @ r"
proof -
  from assms have t: "take (length l) s = l" and r: "r = drop (length l) s"
    by (auto simp add: strip_def split: if_splits)
  have "take (length l) s @ drop (length l) s = s"
    by (rule append_take_drop_id)
  then show ?thesis
    unfolding r [symmetric] t by simp
qed

lemma bt_Lit: "bt (Lit l # k) s st = (case strip l s of None \<Rightarrow> None | Some r \<Rightarrow> bt k r st)"
  by (simp add: strip_def bt.simps)

lemma bt_Star_skip:
  assumes "\<And>cs. bt k (dropWhile (\<lambda>c. c = x) cs) st = None \<Longrightarrow> bt k (x # cs) st = None"
  shows "bt (Star x # k) s st = bt k (dropWhile (\<lambda>c. c = x) s) st"
proof (induction s)
  case Nil
  show ?case by (simp add: bt.simps)
next
  case (Cons c cs)
  show ?case
  proof (cases "c = x")
    case False
    then show ?thesis by (simp add: bt.simps)
  next
    case True
    show ?thesis
    proof (cases "bt k (dropWhile (\<lambda>c. c = x) cs) st")
      case None
      then have "bt k (x # cs) st = None" by (rule assms)
      with None True Cons show ?thesis by (simp add: bt.simps(5))
    next
      case (Some r)
      with True Cons show ?thesis by (simp add: bt.simps(5))
    qed
  qed
qed

lemma bt_Star_reject:
  assumes "\<And>cs. bt k (x # cs) st = None"
  shows "bt (Star x # k) s st = bt k (dropWhile (\<lambda>c. c = x) s) st"
  by (rule bt_Star_skip) (simp add: assms)

lemma dropWhile_idem2: "dropWhile P (dropWhile P xs) = dropWhile P xs"
  by (induction xs) auto

lemma bt_Opt_Star:
  assumes rej: "\<And>cs. bt k (x # cs) st = None"
    and l: "l \<noteq> []" "hd l \<noteq> x"
    and fb: "\<And>cs. bt k (hd l # cs) st = None"
  shows "bt (Opt [Lit l] # Star x # k) s st =
           bt k (dropWhile (\<lambda>c. c = x) (opt_strip l s)) st"
proof (cases "strip l s")
  case None
  then show ?thesis
    by (simp add: bt.simps(6) bt_Lit opt_strip_def bt_Star_reject [OF rej])
next
  case (Some r)
  then have s: "s = l @ r"
    by (rule strip_SomeD)
  obtain c l' where ll: "l = c # l'" using l(1) by (cases l) auto
  have "dropWhile (\<lambda>c. c = x) s = s" using l(2) s ll by simp
  then have "bt (Star x # k) s st = None"
    using fb [of "l' @ r"] s ll by (simp add: bt_Star_reject [OF rej])
  with Some show ?thesis
    by (simp add: bt.simps(6) bt_Lit opt_strip_def bt_Star_reject [OF rej] split: option.split)
qed

lemma bt_digits:
  "bt (GOpen # Digit # Digit # Digit # Digit # GClose # k) s (g, os) =
     (case digits4 s of None \<Rightarrow> None | Some (y, r) \<Rightarrow> bt k r (g @ [y], os))"
proof (cases s)
  case Nil then show ?thesis by (simp add: digits4_def bt.simps)
next
  case (Cons a s1)
  show ?thesis
  proof (cases s1)
    case Nil with Cons show ?thesis by (simp add: digits4_def bt.simps)
  next
    case (Cons b s2)
    note c2 = this
    show ?thesis
    proof (cases s2)
      case Nil with \<open>s = a # s1\<close> c2 show ?thesis by (simp add: digits4_def bt.simps)
    next
      case (Cons c s3)
      note c3 = this
      show ?thesis
      proof (cases s3)
        case Nil with \<open>s = a # s1\<close> c2 c3 show ?thesis by (simp add: digits4_def bt.simps)
      next
        case (Cons d r)
        with \<open>s = a # s1\<close> c2 c3 show ?thesis by (simp add: digits4_def bt.simps)
      qed
    qed
  qed
qed

lemma bt_digit_reject: "\<not> is_digit c \<Longrightarrow> bt (GOpen # Digit # k) (c # cs) st = None"
  by (simp add: bt.simps)

lemma bt_tail:
  "bt [Opt [Lit '',''], Star CHR '' '', Lit ''NVIDIA C'',
       Alt [Lit ''ORPORATION''] [Lit ''orporation'']] s st =
     (case hdr_tail s of None \<Rightarrow> None | Some r \<Rightarrow> Some (fst st, r))"
proof -
  have "bt (Opt [Lit '',''] # Star CHR '' '' # Lit ''NVIDIA C'' #
        [Alt [Lit ''ORPORATION''] [Lit ''orporation'']]) s st =
      bt (Lit ''NVIDIA C'' # [Alt [Lit ''ORPORATION''] [Lit ''orporation'']])
        (dropWhile (\<lambda>c. c = CHR '' '') (opt_strip '','' s)) st"
    by (rule bt_Opt_Star) (simp_all add: bt.simps)
  then show ?thesis
    by (simp add: hdr_tail_def skip_def bt_Lit bt.simps(7) bt.simps(1) split: option.split)
qed

lemma bt_head:
  assumes "\<And>c cs. \<not> is_digit c \<Longrightarrow> bt k (c # cs) st = None"
  shows "bt (Lit ''Copyright'' # Star CHR '' '' # Opt [Lit ''(c)''] # Star CHR '' '' # k) s st =
     (case hdr_head s of None \<Rightarrow> None | Some r \<Rightarrow> bt k r st)"
proof -
  have rej: "\<And>cs. bt k (CHR '' '' # cs) st = None"
    by (rule assms) (simp add: is_digit_def)
  have fb: "\<And>cs. bt k (hd ''(c)'' # cs) st = None"
    by (rule assms) (simp add: is_digit_def)
  have opt: "\<And>s. bt (Opt [Lit ''(c)''] # Star CHR '' '' # k) s st =
      bt k (dropWhile (\<lambda>c. c = CHR '' '') (opt_strip ''(c)'' s)) st"
    by (rule bt_Opt_Star [OF rej _ _ fb]) simp_all
  have star: "\<And>s. bt (Star CHR '' '' # Opt [Lit ''(c)''] # Star CHR '' '' # k) s st =
      bt (Opt [Lit ''(c)''] # Star CHR '' '' # k) (dropWhile (\<lambda>c. c = CHR '' '') s) st"
  proof (rule bt_Star_skip)
    fix s cs
    assume "bt (Opt [Lit ''(c)''] # Star CHR '' '' # k) (dropWhile (\<lambda>c. c = CHR '' '') cs) st = None"
    then have n: "bt k (dropWhile (\<lambda>c. c = CHR '' '') (opt_strip ''(c)'' (dropWhile (\<lambda>c. c = CHR '' '') cs))) st = None"
      by (simp only: opt)
    have "opt_strip ''(c)'' (CHR '' '' # cs) = CHR '' '' # cs"
      by (simp add: opt_strip_def strip_def)
    then have "bt (Opt [Lit ''(c)''] # Star CHR '' '' # k) (CHR '' '' # cs) st =
        bt k (dropWhile (\<lambda>c. c = CHR '' '') cs) st"
      by (simp only: opt) simp
    also have "\<dots> = None"
    proof (cases "strip ''(c)'' (dropWhile (\<lambda>c. c = CHR '' '') cs)")
      case None
      with n show ?thesis by (simp add: opt_strip_def dropWhile_idem2)
    next
      case (Some r)
      then have "dropWhile (\<lambda>c. c = CHR '' '') cs = ''(c)'' @ r"
        by (rule strip_SomeD)
      then show ?thesis using fb [of "''c)'' @ r"] by simp
    qed
    finally show "bt (Opt [Lit ''(c)''] # Star CHR '' '' # k) (CHR '' '' # cs) st = None" .
  qed
  show ?thesis
    by (simp only: bt_Lit star opt) (simp add: hdr_head_def skip_def split: option.split)
qed

lemma re_match_CheckSimple: "re_match CheckSimple s = match_simple s"
proof -
  have "bt CheckSimple s ([], []) =
      (case hdr_head s of None \<Rightarrow> None
       | Some r \<Rightarrow> bt (GOpen # Digit # Digit # Digit # Digit # GClose #
           [Opt [Lit '',''], Star CHR '' '', Lit ''NVIDIA C'',
            Alt [Lit ''ORPORATION''] [Lit ''orporation'']]) r ([], []))"
    unfolding CheckSimple_def by (rule bt_head) (simp add: bt.simps)
  then show ?thesis
    by (simp only: re_match_def bt_digits bt_tail match_simple_def)
      (simp split: option.split prod.split)
qed

lemma re_match_CheckDouble: "re_match CheckDouble s = match_double s"
proof -
  have "bt CheckDouble s ([], []) =
      (case hdr_head s of None \<Rightarrow> None
       | Some r \<Rightarrow> bt (GOpen # Digit # Digit # Digit # Digit # GClose # Lit ''-'' #
           GOpen # Digit # Digit # Digit # Digit # GClose #
           [Opt [Lit '',''], Star CHR '' '', Lit ''NVIDIA C'',
            Alt [Lit ''ORPORATION''] [Lit ''orporation'']]) r ([], []))"
    unfolding CheckDouble_def by (rule bt_head) (simp add: bt.simps)
  then show ?thesis
    by (simp only: re_match_def bt_digits bt_Lit bt_tail match_double_def)
      (simp split: option.split prod.split)
qed


lemma skip_sp: "skip (sp n @ x) = skip x"
  by (simp add: skip_def sp_def dropWhile_append)

lemma skip_nonspace: "c \<noteq> CHR '' '' \<Longrightarrow> skip (c # x) = c # x"
  by (simp add: skip_def)

lemma skip_decomp: "\<exists>n. s = sp n @ skip s"
proof -
  have "s = takeWhile (\<lambda>c. c = CHR '' '') s @ skip s"
    by (simp add: skip_def)
  moreover have "takeWhile (\<lambda>c. c = CHR '' '') s =
      sp (length (takeWhile (\<lambda>c. c = CHR '' '') s))"
    unfolding sp_def by (induction s) simp_all
  ultimately show ?thesis by metis
qed

lemma opt_strip_decomp: "\<exists>c. s = (if c then l else []) @ opt_strip l s"
proof (cases "strip l s")
  case None
  then have "s = (if False then l else []) @ opt_strip l s"
    by (simp add: opt_strip_def)
  then show ?thesis by blast
next
  case (Some r)
  then have "s = (if True then l else []) @ opt_strip l s"
    by (simp add: opt_strip_def strip_SomeD)
  then show ?thesis by blast
qed

lemma strip_append: "strip l (l @ r) = Some r"
  by (simp add: strip_def)

lemma digits4_SomeD: "digits4 s = Some (y, r) \<Longrightarrow> s = y @ r \<and> year4 y"
  by (auto simp add: digits4_def year4_def split: if_splits)

lemma digits4_append: "year4 y \<Longrightarrow> digits4 (y @ r) = Some (y, r)"
  by (simp add: digits4_def year4_def)

lemma hdr_head_SomeD:
  assumes "hdr_head s = Some r"
  shows "\<exists>n1 c n2. s = hdr_pre n1 c n2 @ r"
proof -
  from assms obtain r0 where r0: "strip ''Copyright'' s = Some r0"
    and r: "r = skip (opt_strip ''(c)'' (skip r0))"
    by (auto simp add: hdr_head_def split: option.splits)
  obtain n1 where n1: "r0 = sp n1 @ skip r0" using skip_decomp by blast
  obtain c where c: "skip r0 = (if c then ''(c)'' else []) @ opt_strip ''(c)'' (skip r0)"
    using opt_strip_decomp by blast
  obtain n2 where n2: "opt_strip ''(c)'' (skip r0) = sp n2 @ r"
    unfolding r using skip_decomp by blast
  have "s = ''Copyright'' @ r0" using r0 by (rule strip_SomeD)
  also have "r0 = sp n1 @ (if c then ''(c)'' else []) @ sp n2 @ r"
    using n1 c n2 by metis
  finally have "s = hdr_pre n1 c n2 @ r" by (simp add: hdr_pre_def)
  then show ?thesis by blast
qed

lemma hdr_head_pre:
  assumes "is_digit d"
  shows "hdr_head (hdr_pre n1 c n2 @ d # x) = Some (d # x)"
proof -
  have d: "d \<noteq> CHR '' ''" "d \<noteq> CHR ''(''"
    using assms by (auto simp add: is_digit_def)
  have a: "skip (sp n2 @ d # x) = d # x"
    by (simp add: skip_sp skip_nonspace d)
  have "skip (opt_strip ''(c)'' (skip (sp n1 @ (if c then ''(c)'' else []) @ sp n2 @ d # x)))
      = d # x"
  proof (cases c)
    case True
    then show ?thesis
      by (simp add: skip_sp skip_nonspace opt_strip_def strip_def d)
  next
    case False
    have "skip (sp n1 @ sp n2 @ d # x) = d # x"
      by (simp add: skip_sp skip_nonspace d)
    with False show ?thesis
      by (simp add: opt_strip_def strip_def d skip_nonspace)
  qed
  then show ?thesis
    by (simp add: hdr_head_def hdr_pre_def strip_def)
qed

lemma hdr_tail_SomeD:
  assumes "hdr_tail s = Some r"
  shows "\<exists>comma n3 up. s = hdr_post comma n3 up @ r"
proof -
  from assms obtain r0 where r0: "strip ''NVIDIA C'' (skip (opt_strip '','' s)) = Some r0"
    and alt: "(case strip ''ORPORATION'' r0 of Some r' \<Rightarrow> Some r'
               | None \<Rightarrow> strip ''orporation'' r0) = Some r"
    by (auto simp add: hdr_tail_def split: option.splits)
  from alt obtain up where up: "r0 = (if up then ''ORPORATION'' else ''orporation'') @ r"
  proof (cases "strip ''ORPORATION'' r0")
    case None
    with alt have "strip ''orporation'' r0 = Some r" by simp
    then have "r0 = ''orporation'' @ r" by (rule strip_SomeD)
    then have "r0 = (if False then ''ORPORATION'' else ''orporation'') @ r" by simp
    then show ?thesis by (rule that)
  next
    case (Some r')
    with alt have "strip ''ORPORATION'' r0 = Some r" by simp
    then have "r0 = ''ORPORATION'' @ r" by (rule strip_SomeD)
    then have "r0 = (if True then ''ORPORATION'' else ''orporation'') @ r" by simp
    then show ?thesis by (rule that)
  qed
  obtain comma where comma: "s = (if comma then '','' else []) @ opt_strip '','' s"
    using opt_strip_decomp by blast
  obtain n3 where n3: "opt_strip '','' s = sp n3 @ skip (opt_strip '','' s)"
    using skip_decomp by blast
  have "skip (opt_strip '','' s) = ''NVIDIA C'' @ r0" using r0 by (rule strip_SomeD)
  with n3 up have "opt_strip '','' s =
      sp n3 @ ''NVIDIA C'' @ (if up then ''ORPORATION'' else ''orporation'') @ r"
    by simp
  with comma have "s = hdr_post comma n3 up @ r"
    by (simp add: hdr_post_def)
  then show ?thesis by blast
qed

lemma hdr_tail_post: "hdr_tail (hdr_post comma n3 up @ z) = Some z"
proof -
  have "skip (opt_strip '','' ((if comma then '','' else []) @ sp n3 @ ''NVIDIA C'' @ w))
      = ''NVIDIA C'' @ w" for w
  proof (cases comma)
    case True
    then show ?thesis by (simp add: opt_strip_def strip_def skip_sp skip_nonspace)
  next
    case False
    have "opt_strip '','' (sp n3 @ ''NVIDIA C'' @ w) = sp n3 @ ''NVIDIA C'' @ w"
      by (cases n3) (simp_all add: opt_strip_def strip_def sp_def)
    with False show ?thesis by (simp add: skip_sp skip_nonspace)
  qed
  then show ?thesis
    by (cases up) (simp_all add: hdr_tail_def hdr_post_def strip_def)
qed

lemma hdr_tail_dash: "hdr_tail (CHR ''-'' # x) = None"
  by (simp add: hdr_tail_def opt_strip_def strip_def skip_nonspace)

lemma strip_dash_post: "strip ''-'' (hdr_post comma n3 up @ z) = None"
  by (cases comma; cases n3) (simp_all add: strip_def hdr_post_def sp_def)

lemma match_simple_SomeD:
  assumes "match_simple s = Some (g, rest)"
  shows "\<exists>n1 c n2 y comma n3 up.
           s = hdr_pre n1 c n2 @ y @ hdr_post comma n3 up @ rest \<and> year4 y \<and> g = [y]"
proof -
  from assms obtain r y r1 where h: "hdr_head s = Some r" and d: "digits4 r = Some (y, r1)"
    and t: "hdr_tail r1 = Some rest" and g: "g = [y]"
    by (auto simp add: match_simple_def split: option.splits)
  from h obtain n1 c n2 where "s = hdr_pre n1 c n2 @ r" using hdr_head_SomeD by blast
  moreover from d have "r = y @ r1" "year4 y" using digits4_SomeD by blast+
  moreover from t obtain comma n3 up where "r1 = hdr_post comma n3 up @ rest"
    using hdr_tail_SomeD by blast
  ultimately show ?thesis using g by blast
qed

lemma year4_cons: "year4 y \<Longrightarrow> \<exists>d y'. y = d # y' \<and> is_digit d"
  by (cases y) (simp_all add: year4_def)

lemma match_simple_text:
  assumes "year4 y"
  shows "match_simple (hdr_pre n1 c n2 @ y @ hdr_post comma n3 up @ z) = Some ([y], z)"
proof -
  from assms obtain d y' where y: "y = d # y'" and "is_digit d" using year4_cons by blast
  then have "hdr_head (hdr_pre n1 c n2 @ y @ hdr_post comma n3 up @ z)
      = Some (y @ hdr_post comma n3 up @ z)"
    using hdr_head_pre [of d n1 c n2 "y' @ hdr_post comma n3 up @ z"] by simp
  then show ?thesis
    using assms by (simp add: match_simple_def digits4_append hdr_tail_post)
qed

lemma match_double_SomeD:
  assumes "match_double s = Some (g, rest)"
  shows "\<exists>n1 c n2 a b comma n3 up.
           s = hdr_pre n1 c n2 @ a @ ''-'' @ b @ hdr_post comma n3 up @ rest \<and>
           year4 a \<and> year4 b \<and> g = [a, b]"
proof -
  from assms obtain r a r1 r2 b r3 where h: "hdr_head s = Some r"
    and d1: "digits4 r = Some (a, r1)" and dash: "strip ''-'' r1 = Some r2"
    and d2: "digits4 r2 = Some (b, r3)"
    and t: "hdr_tail r3 = Some rest" and g: "g = [a, b]"
    by (auto simp add: match_double_def split: option.splits)
  from h obtain n1 c n2 where "s = hdr_pre n1 c n2 @ r" using hdr_head_SomeD by blast
  moreover from d1 have "r = a @ r1" "year4 a" using digits4_SomeD by blast+
  moreover from dash have "r1 = ''-'' @ r2" by (rule strip_SomeD)
  moreover from d2 have "r2 = b @ r3" "year4 b" using digits4_SomeD by blast+
  moreover from t obtain comma n3 up where "r3 = hdr_post comma n3 up @ rest"
    using hdr_tail_SomeD by blast
  ultimately show ?thesis using g by blast
qed

lemma match_double_text:
  assumes "year4 a" "year4 b"
  shows "match_double (hdr_pre n1 c n2 @ a @ ''-'' @ b @ hdr_post comma n3 up @ z)
           = Some ([a, b], z)"
proof -
  from assms obtain d y' where y: "a = d # y'" and "is_digit d" using year4_cons by blast
  then have "hdr_head (hdr_pre n1 c n2 @ a @ ''-'' @ b @ hdr_post comma n3 up @ z)
      = Some (a @ ''-'' @ b @ hdr_post comma n3 up @ z)"
    using hdr_head_pre [of d n1 c n2 "y' @ ''-'' @ b @ hdr_post comma n3 up @ z"] by simp
  then show ?thesis
    using assms by (simp add: match_double_def digits4_append hdr_tail_post strip_def)
qed

lemma match_simple_on_double:
  assumes "year4 a"
  shows "match_simple (hdr_pre n1 c n2 @ a @ ''-'' @ x) = None"
proof -
  from assms obtain d y' where y: "a = d # y'" and "is_digit d" using year4_cons by blast
  then have "hdr_head (hdr_pre n1 c n2 @ a @ ''-'' @ x) = Some (a @ ''-'' @ x)"
    using hdr_head_pre [of d n1 c n2 "y' @ ''-'' @ x"] by simp
  then show ?thesis
    using assms by (simp add: match_simple_def digits4_append hdr_tail_dash)
qed

lemma match_double_on_simple:
  assumes "year4 y"
  shows "match_double (hdr_pre n1 c n2 @ y @ hdr_post comma n3 up @ z) = None"
proof -
  from assms obtain d y' where y: "y = d # y'" and "is_digit d" using year4_cons by blast
  then have "hdr_head (hdr_pre n1 c n2 @ y @ hdr_post comma n3 up @ z)
      = Some (y @ hdr_post comma n3 up @ z)"
    using hdr_head_pre [of d n1 c n2 "y' @ hdr_post comma n3 up @ z"] by simp
  then show ?thesis
    using assms by (simp add: match_double_def digits4_append strip_dash_post)
qed


declare re_sub.simps [simp del] rewrite_headers.simps [simp del]

lemma digit_chars: "is_digit c \<Longrightarrow> c \<noteq> CHR ''C'' \<and> c \<noteq> CHR ''y'' \<and> c \<noteq> LF \<and> c \<noteq> CR \<and> c \<noteq> CHR '' ''"
  by (auto simp add: is_digit_def LF_def CR_def)

lemma year4_chars:
  "year4 y \<Longrightarrow> CHR ''C'' \<notin> set y \<and> CHR ''y'' \<notin> set y \<and> LF \<notin> set y \<and> CR \<notin> set y"
  by (auto simp add: year4_def list_all_iff dest: digit_chars)

lemma is_hdr_text:
  assumes "CHR ''C'' \<notin> set ys" "CHR ''y'' \<notin> set ys" "LF \<notin> set ys" "CR \<notin> set ys"
  shows "is_hdr (hdr_pre n1 c n2 @ ys @ hdr_post comma n3 up)"
proof -
  let ?u = "''right'' @ sp n1 @ (if c then ''(c)'' else []) @ sp n2 @ ys @
      (if comma then '','' else []) @ sp n3 @ ''NVIDIA ''"
  let ?corp = "if up then ''ORPORATION'' else ''orporation''"
  have "hdr_pre n1 c n2 @ ys @ hdr_post comma n3 up = ''Copy'' @ ?u @ ''C'' @ ?corp"
    by (simp add: hdr_pre_def hdr_post_def)
  moreover have "CHR ''C'' \<notin> set ?u \<and> CHR ''y'' \<notin> set ?u \<and> LF \<notin> set ?u \<and> CR \<notin> set ?u"
    using assms by (simp add: sp_def LF_def CR_def)
  moreover have "?corp = ''ORPORATION'' \<or> ?corp = ''orporation''" by simp
  ultimately show ?thesis unfolding is_hdr_def by blast
qed

lemma hdr_regex_CheckSimple: "hdr_regex CheckSimple"
  unfolding hdr_regex_def
proof (intro allI impI)
  fix s g rest
  assume "re_match CheckSimple s = Some (g, rest)"
  then have "match_simple s = Some (g, rest)" by (simp add: re_match_CheckSimple)
  then obtain n1 c n2 y comma n3 up where
    s: "s = hdr_pre n1 c n2 @ y @ hdr_post comma n3 up @ rest" and y: "year4 y" and g: "g = [y]"
    using match_simple_SomeD by blast
  let ?m = "hdr_pre n1 c n2 @ y @ hdr_post comma n3 up"
  have "s = ?m @ rest" using s by simp
  moreover have "is_hdr ?m" using year4_chars [OF y] by (simp add: is_hdr_text)
  moreover have "\<forall>z. re_match CheckSimple (?m @ z) = Some (g, z)"
    using match_simple_text [OF y] g by (simp add: re_match_CheckSimple)
  ultimately show "\<exists>m. s = m @ rest \<and> is_hdr m \<and> (\<forall>z. re_match CheckSimple (m @ z) = Some (g, z))"
    by blast
qed

lemma hdr_regex_CheckDouble: "hdr_regex CheckDouble"
  unfolding hdr_regex_def
proof (intro allI impI)
  fix s g rest
  assume "re_match CheckDouble s = Some (g, rest)"
  then have "match_double s = Some (g, rest)" by (simp add: re_match_CheckDouble)
  then obtain n1 c n2 a b comma n3 up where
    s: "s = hdr_pre n1 c n2 @ a @ ''-'' @ b @ hdr_post comma n3 up @ rest"
    and a: "year4 a" and b: "year4 b" and g: "g = [a, b]"
    using match_double_SomeD by blast
  let ?m = "hdr_pre n1 c n2 @ (a @ ''-'' @ b) @ hdr_post comma n3 up"
  have "s = ?m @ rest" using s by simp
  moreover have "is_hdr ?m"
    using year4_chars [OF a] year4_chars [OF b] by (intro is_hdr_text) (simp_all add: LF_def CR_def)
  moreover have "\<forall>z. re_match CheckDouble (?m @ z) = Some (g, z)"
    using match_double_text [OF a b] g by (simp add: re_match_CheckDouble)
  ultimately show "\<exists>m. s = m @ rest \<and> is_hdr m \<and> (\<forall>z. re_match CheckDouble (m @ z) = Some (g, z))"
    by blast
qed

lemma is_hdr_Copy:
  assumes "is_hdr m"
  shows "\<exists>m'. m = ''Copy'' @ m' \<and> CHR ''y'' \<notin> set m'"
proof -
  from assms obtain u corp where "m = ''Copy'' @ u @ ''C'' @ corp" "CHR ''y'' \<notin> set u"
    "corp = ''ORPORATION'' \<or> corp = ''orporation''"
    unfolding is_hdr_def by blast
  then have "m = ''Copy'' @ (u @ ''C'' @ corp) \<and> CHR ''y'' \<notin> set (u @ ''C'' @ corp)"
    by auto
  then show ?thesis by blast
qed

lemma is_hdr_no_newline: "is_hdr m \<Longrightarrow> LF \<notin> set m \<and> CR \<notin> set m"
  unfolding is_hdr_def by (auto simp add: LF_def CR_def)

lemma hdr_match_Copy:
  assumes "hdr_regex r" "re_match r s = Some (g, rest)"
  shows "take 4 s = ''Copy''"
proof -
  from assms obtain m where "s = m @ rest" "is_hdr m" unfolding hdr_regex_def by blast
  then show ?thesis using is_hdr_Copy by fastforce
qed

lemma hdr_match_consumes:
  assumes "hdr_regex r" "re_match r s = Some (g, rest)"
  shows "length rest < length s"
proof -
  from assms obtain m where "s = m @ rest" "is_hdr m" unfolding hdr_regex_def by blast
  then show ?thesis using is_hdr_Copy by fastforce
qed

lemma no_match_other_char:
  assumes "hdr_regex r" "c \<noteq> CHR ''C''"
  shows "re_match r (c # cs) = None"
proof (cases "re_match r (c # cs)")
  case None then show ?thesis .
next
  case (Some a)
  then have "take 4 (c # cs) = ''Copy''"
    using hdr_match_Copy [OF assms(1)] by (cases a) blast
  with assms(2) show ?thesis by simp
qed

lemma no_match_Nil: "hdr_regex r \<Longrightarrow> re_match r [] = None"
  using hdr_match_Copy [of r "[]"] by (cases "re_match r []") auto

lemma re_sub_no_match: "re_match r (c # cs) = None \<Longrightarrow> re_sub r t (c # cs) = c # re_sub r t cs"
  by (simp add: re_sub.simps)

lemma re_sub_match:
  assumes "hdr_regex r" "re_match r s = Some (g, rest)"
  shows "re_sub r t s = expand t g @ re_sub r t rest"
proof -
  have l: "length rest < length s" using assms by (rule hdr_match_consumes)
  then obtain c cs where "s = c # cs" by (cases s) auto
  with assms(2) l show ?thesis by (simp add: re_sub.simps)
qed

lemma re_sub_Nil: "hdr_regex r \<Longrightarrow> re_sub r t [] = []"
  by (simp add: re_sub.simps no_match_Nil)

lemma re_sub_other_chars:
  assumes "hdr_regex r" "CHR ''C'' \<notin> set v"
  shows "re_sub r t (v @ z) = v @ re_sub r t z"
  using assms(2)
proof (induction v)
  case Nil
  show ?case by simp
next
  case (Cons a v)
  then have "a \<noteq> CHR ''C''" by auto
  then have "re_match r (a # v @ z) = None" by (rule no_match_other_char [OF assms(1)])
  then show ?case using Cons by (simp add: re_sub_no_match)
qed

lemma re_search_other_chars:
  assumes "hdr_regex r" "CHR ''C'' \<notin> set v"
  shows "re_search r (v @ z) = re_search r z"
  using assms(2)
proof (induction v)
  case Nil
  show ?case by simp
next
  case (Cons a v)
  then have "a \<noteq> CHR ''C''" by auto
  then have "re_match r (a # v @ z) = None" by (rule no_match_other_char [OF assms(1)])
  then show ?case using Cons by simp
qed

lemma no_match_corp:
  assumes "hdr_regex r" "corp = ''ORPORATION'' \<or> corp = ''orporation''"
  shows "re_match r (CHR ''C'' # corp @ z) = None"
proof (cases "re_match r (CHR ''C'' # corp @ z)")
  case None then show ?thesis .
next
  case (Some a)
  then have "take 4 (CHR ''C'' # corp @ z) = ''Copy''"
    using hdr_match_Copy [OF assms(1)] by (cases a) blast
  with assms(2) show ?thesis by auto
qed

lemma re_sub_through_header:
  assumes hr: "hdr_regex r" and m: "is_hdr m" and nm: "re_match r (m @ z) = None"
  shows "re_sub r t (m @ z) = m @ re_sub r t z"
proof -
  from m obtain u corp where mm: "m = ''Copy'' @ u @ ''C'' @ corp" and u: "CHR ''C'' \<notin> set u"
    and corp: "corp = ''ORPORATION'' \<or> corp = ''orporation''"
    unfolding is_hdr_def by blast
  have c: "CHR ''C'' \<notin> set (''opy'' @ u)" "CHR ''C'' \<notin> set corp"
    using u corp by auto
  have "re_sub r t (m @ z) = CHR ''C'' # re_sub r t ((''opy'' @ u) @ CHR ''C'' # corp @ z)"
    using nm unfolding mm by (simp add: re_sub_no_match)
  also have "\<dots> = CHR ''C'' # (''opy'' @ u) @ re_sub r t (CHR ''C'' # corp @ z)"
    by (simp only: re_sub_other_chars [OF hr c(1)])
  also have "\<dots> = CHR ''C'' # (''opy'' @ u) @ CHR ''C'' # re_sub r t (corp @ z)"
    by (simp only: re_sub_no_match [OF no_match_corp [OF hr corp]])
  also have "\<dots> = CHR ''C'' # (''opy'' @ u) @ CHR ''C'' # corp @ re_sub r t z"
    by (simp only: re_sub_other_chars [OF hr c(2)])
  finally show ?thesis unfolding mm by simp
qed

lemma re_search_through_header:
  assumes hr: "hdr_regex r" and m: "is_hdr m" and nm: "re_match r (m @ z) = None"
  shows "re_search r (m @ z) = re_search r z"
proof -
  from m obtain u corp where mm: "m = ''Copy'' @ u @ ''C'' @ corp" and u: "CHR ''C'' \<notin> set u"
    and corp: "corp = ''ORPORATION'' \<or> corp = ''orporation''"
    unfolding is_hdr_def by blast
  have c: "CHR ''C'' \<notin> set (''opy'' @ u)" "CHR ''C'' \<notin> set corp"
    using u corp by auto
  have "re_search r (m @ z) = re_search r ((''opy'' @ u) @ CHR ''C'' # corp @ z)"
    using nm unfolding mm by simp
  also have "\<dots> = re_search r (CHR ''C'' # corp @ z)"
    by (simp only: re_search_other_chars [OF hr c(1)])
  also have "\<dots> = re_search r (corp @ z)"
    by (simp add: no_match_corp [OF hr corp])
  also have "\<dots> = re_search r z"
    by (simp only: re_search_other_chars [OF hr c(2)])
  finally show ?thesis .
qed

lemma agree_refl: "agree a a"
  by (simp add: agree_def)

lemma agree_Cons: "agree a b \<Longrightarrow> agree (c # a) (c # b)"
  unfolding agree_def by (metis append_Cons)

lemma agree_Copy: "agree (''Copy'' @ x) (''Copy'' @ y)"
  unfolding agree_def by (metis append_Nil)

lemma take_prefix_only: "n \<le> length p \<Longrightarrow> take n (p @ x) = take n p"
  by simp

lemma straddle:
  assumes hr: "hdr_regex r" and ag: "agree cs w" and nm: "re_match r (c # cs) = None"
  shows "re_match r (c # w) = None"
proof (rule ccontr)
  assume "re_match r (c # w) \<noteq> None"
  then obtain g rest where some: "re_match r (c # w) = Some (g, rest)" by auto
  with hr obtain m where m: "c # w = m @ rest" "is_hdr m"
    and cl: "\<And>z. re_match r (m @ z) = Some (g, z)"
    unfolding hdr_regex_def by blast
  from ag consider "cs = w" | u x y where "cs = u @ ''Copy'' @ x" "w = u @ ''Copy'' @ y"
    unfolding agree_def by blast
  then show False
  proof cases
    case 1
    with nm some show False by simp
  next
    case 2
    from m(2) obtain m' where m': "m = ''Copy'' @ m'" "CHR ''y'' \<notin> set m'"
      using is_hdr_Copy by blast
    have len: "length m \<le> length u + 4"
    proof (rule ccontr)
      assume "\<not> length m \<le> length u + 4"
      then have l: "length u + 4 < length m" by simp
      then have "m ! (length u + 4) = (c # w) ! (length u + 4)"
        using m(1) by (simp add: nth_append)
      also have "\<dots> = w ! (length u + 3)"
        by (simp add: add.commute)
      also have "\<dots> = (''Copy'' @ y) ! 3"
        unfolding 2(2) by (rule nth_append_length_plus)
      also have "\<dots> = CHR ''y''"
        by simp
      finally have "m ! (length u + 4) = CHR ''y''" .
      moreover have "(''Copy'' @ m') ! (length ''Copy'' + length u) = m' ! length u"
        by (rule nth_append_length_plus)
      then have "m ! (length u + 4) = m' ! length u"
        using m'(1) by (simp add: add.commute)
      moreover have "length u < length m'" using l m'(1) by simp
      ultimately show False using m'(2) by (metis nth_mem)
    qed
    let ?p = "c # u @ ''Copy''"
    have lp: "length m \<le> length ?p" using len by simp
    have "m = take (length m) (c # w)" using m(1) by simp
    also have "\<dots> = take (length m) (?p @ y)" using 2(2) by simp
    also have "\<dots> = take (length m) ?p" using lp by (rule take_prefix_only)
    also have "\<dots> = take (length m) (?p @ x)" using lp by (rule take_prefix_only [symmetric])
    also have "\<dots> = take (length m) (c # cs)" using 2(1) by simp
    finally have "m = take (length m) (c # cs)" .
    then have "c # cs = m @ drop (length m) (c # cs)"
      by (metis append_take_drop_id)
    then have "re_match r (c # cs) = Some (g, drop (length m) (c # cs))"
      using cl by metis
    with nm show False by simp
  qed
qed


lemma canonical_text: "canonical a b = hdr_pre 1 True 1 @ (a @ ''-'' @ b) @ hdr_post True 1 True"
  by (simp add: canonical_def hdr_pre_def hdr_post_def sp_def)

lemma canonical_Copy: "canonical a b = ''Copy'' @ ''right (c) '' @ a @ ''-'' @ b @ '', NVIDIA CORPORATION''"
  by (simp add: canonical_def)

lemma match_double_canonical:
  "year4 a \<Longrightarrow> year4 b \<Longrightarrow> re_match CheckDouble (canonical a b @ z) = Some ([a, b], z)"
  using match_double_text [of a b 1 True 1 True 1 True z]
  by (simp add: re_match_CheckDouble canonical_text)

lemma match_simple_canonical:
  "year4 a \<Longrightarrow> re_match CheckSimple (canonical a b @ z) = None"
  using match_simple_on_double [of a 1 True 1 "b @ hdr_post True 1 True @ z"]
  by (simp add: re_match_CheckSimple canonical_text)

lemma is_hdr_canonical: "year4 a \<Longrightarrow> year4 b \<Longrightarrow> is_hdr (canonical a b)"
  unfolding canonical_text
  using year4_chars [of a] year4_chars [of b]
  by (intro is_hdr_text) (simp_all add: LF_def CR_def)

lemma simple_groups:
  assumes "re_match CheckSimple s = Some (g, rest)"
  shows "\<exists>y. g = [y] \<and> year4 y"
  using assms match_simple_SomeD [of s g rest] by (auto simp add: re_match_CheckSimple)

lemma double_groups:
  assumes "re_match CheckDouble s = Some (g, rest)"
  shows "\<exists>a b. g = [a, b] \<and> year4 a \<and> year4 b"
  using assms match_double_SomeD [of s g rest] by (auto simp add: re_match_CheckDouble)

lemma not_both:
  assumes "re_match CheckSimple s = Some (g, rest)"
  shows "re_match CheckDouble s = None"
proof -
  from assms obtain n1 c n2 y comma n3 up where
    "s = hdr_pre n1 c n2 @ y @ hdr_post comma n3 up @ rest" "year4 y"
    using match_simple_SomeD [of s g rest] by (auto simp add: re_match_CheckSimple)
  then show ?thesis by (simp add: re_match_CheckDouble match_double_on_simple)
qed

lemma expand_simple_to_double: "expand simple_to_double [y] = canonical y y"
  by (simp add: simple_to_double_def canonical_def)

lemma expand_year_template:
  "expand (year_template start end) g = canonical (fmt04d start) (fmt04d end)"
  by (simp add: year_template_def)

lemma rewrite_no_header:
  "header_at (c # cs) = None \<Longrightarrow> rewrite_headers new (c # cs) = c # rewrite_headers new cs"
  by (simp add: rewrite_headers.simps)

lemma header_at_consumes:
  assumes "header_at s = Some rest"
  shows "length rest < length s"
  using assms hdr_match_consumes [OF hdr_regex_CheckSimple, of s _ rest]
    hdr_match_consumes [OF hdr_regex_CheckDouble, of s _ rest]
  by (auto simp add: header_at_def split: option.splits)

lemma rewrite_header:
  assumes "header_at s = Some rest"
  shows "rewrite_headers new s = new @ rewrite_headers new rest"
proof -
  have l: "length rest < length s" using assms by (rule header_at_consumes)
  then obtain c cs where "s = c # cs" by (cases s) auto
  with assms l show ?thesis by (simp add: rewrite_headers.simps)
qed

lemma header_at_Copy: "header_at s = Some rest \<Longrightarrow> take 4 s = ''Copy''"
  using hdr_match_Copy [OF hdr_regex_CheckSimple, of s _ rest]
    hdr_match_Copy [OF hdr_regex_CheckDouble, of s _ rest]
  by (auto simp add: header_at_def split: option.splits)

lemma Copy_decomp: "take 4 s = ''Copy'' \<Longrightarrow> \<exists>x. s = ''Copy'' @ x"
  by (metis append_take_drop_id)

lemma agree_re_sub_simple: "agree s (re_sub CheckSimple simple_to_double s)"
proof (induction s)
  case Nil
  show ?case by (simp add: re_sub_Nil hdr_regex_CheckSimple agree_refl)
next
  case (Cons c cs)
  show ?case
  proof (cases "re_match CheckSimple (c # cs)")
    case None
    then show ?thesis using Cons by (simp add: re_sub_no_match agree_Cons)
  next
    case (Some a)
    obtain g rest where a: "a = (g, rest)" by (cases a)
    with Some have m: "re_match CheckSimple (c # cs) = Some (g, rest)" by simp
    then obtain y where g: "g = [y]" using simple_groups by blast
    obtain x where x: "c # cs = ''Copy'' @ x"
      using hdr_match_Copy [OF hdr_regex_CheckSimple m] Copy_decomp by blast
    have "re_sub CheckSimple simple_to_double (c # cs) =
        canonical y y @ re_sub CheckSimple simple_to_double rest"
      using re_sub_match [OF hdr_regex_CheckSimple m] g by (simp add: expand_simple_to_double)
    then have "re_sub CheckSimple simple_to_double (c # cs) =
        ''Copy'' @ (''right (c) '' @ y @ ''-'' @ y @ '', NVIDIA CORPORATION'' @
          re_sub CheckSimple simple_to_double rest)"
      by (simp add: canonical_def)
    then show ?thesis using x agree_Copy by metis
  qed
qed

lemma agree_rewrite:
  assumes "take 4 new = ''Copy''"
  shows "agree s (rewrite_headers new s)"
proof (induction s)
  case Nil
  show ?case by (simp add: rewrite_headers.simps agree_refl)
next
  case (Cons c cs)
  show ?case
  proof (cases "header_at (c # cs)")
    case None
    then show ?thesis using Cons by (simp add: rewrite_no_header agree_Cons)
  next
    case (Some rest)
    obtain x where x: "c # cs = ''Copy'' @ x"
      using header_at_Copy [OF Some] Copy_decomp by blast
    obtain n where n: "new = ''Copy'' @ n" using assms Copy_decomp by blast
    have "rewrite_headers new (c # cs) = ''Copy'' @ (n @ rewrite_headers new rest)"
      using rewrite_header [OF Some] n by simp
    then show ?thesis using x agree_Copy by metis
  qed
qed

lemma replace_rewrite:
  "re_sub CheckDouble (year_template start end) (re_sub CheckSimple simple_to_double s) =
     rewrite_headers (canonical (fmt04d start) (fmt04d end)) s"
proof (induction s rule: length_induct)
  case (1 s)
  let ?S = "re_sub CheckSimple simple_to_double"
  let ?D = "re_sub CheckDouble (year_template start end)"
  let ?new = "canonical (fmt04d start) (fmt04d end)"
  show ?case
  proof (cases s)
    case Nil
    then show ?thesis
      by (simp add: re_sub_Nil hdr_regex_CheckSimple hdr_regex_CheckDouble rewrite_headers.simps)
  next
    case (Cons c cs)
    show ?thesis
    proof (cases "re_match CheckSimple s")
      case (Some a)
      obtain g rest where "a = (g, rest)" by (cases a)
      with Some have m: "re_match CheckSimple s = Some (g, rest)" by simp
      then obtain y where g: "g = [y]" and y: "year4 y" using simple_groups by blast
      have l: "length rest < length s"
        using hdr_match_consumes [OF hdr_regex_CheckSimple m] .
      have "?S s = canonical y y @ ?S rest"
        using re_sub_match [OF hdr_regex_CheckSimple m] g by (simp add: expand_simple_to_double)
      then have "?D (?S s) = ?new @ ?D (?S rest)"
        using re_sub_match [OF hdr_regex_CheckDouble match_double_canonical [OF y y]]
        by (simp add: expand_year_template)
      moreover have "header_at s = Some rest" using m by (simp add: header_at_def)
      then have "rewrite_headers ?new s = ?new @ rewrite_headers ?new rest"
        by (rule rewrite_header)
      ultimately show ?thesis using 1 l by simp
    next
      case None
      note ns = this
      show ?thesis
      proof (cases "re_match CheckDouble s")
        case (Some a)
        obtain g rest where "a = (g, rest)" by (cases a)
        with Some have m: "re_match CheckDouble s = Some (g, rest)" by simp
        then obtain t where t: "s = t @ rest" "is_hdr t"
          and cl: "\<And>z. re_match CheckDouble (t @ z) = Some (g, z)"
          using hdr_regex_CheckDouble unfolding hdr_regex_def by blast
        have l: "length rest < length s"
          using hdr_match_consumes [OF hdr_regex_CheckDouble m] .
        have "?S s = t @ ?S rest"
          using re_sub_through_header [OF hdr_regex_CheckSimple t(2)] ns t(1) by simp
        then have "?D (?S s) = ?new @ ?D (?S rest)"
          using re_sub_match [OF hdr_regex_CheckDouble cl] by (simp add: expand_year_template)
        moreover have "header_at s = Some rest" using m ns by (simp add: header_at_def)
        then have "rewrite_headers ?new s = ?new @ rewrite_headers ?new rest"
          by (rule rewrite_header)
        ultimately show ?thesis using 1 l by simp
      next
        case None
        have "?S s = c # ?S cs" using ns Cons by (simp add: re_sub_no_match)
        moreover have "re_match CheckDouble (c # ?S cs) = None"
          using straddle [OF hdr_regex_CheckDouble agree_re_sub_simple] None Cons by simp
        ultimately have "?D (?S s) = c # ?D (?S cs)" by (simp add: re_sub_no_match)
        moreover have "header_at s = None" using ns None by (simp add: header_at_def)
        then have "rewrite_headers ?new s = c # rewrite_headers ?new cs"
          using Cons by (simp add: rewrite_no_header)
        ultimately show ?thesis using 1 Cons by simp
      qed
    qed
  qed
qed

lemma replaceCurrentYear_rewrite:
  "replaceCurrentYear line start end =
     rewrite_headers (canonical (fmt04d start) (fmt04d end)) line"
  by (simp add: replaceCurrentYear_def replace_rewrite)


lemma re_search_head: "re_match r s = Some (g, rest) \<Longrightarrow> re_search r s = Some g"
  by (cases s) simp_all

lemma re_search_SomeD: "re_search r s = Some g \<Longrightarrow> \<exists>s' rest. re_match r s' = Some (g, rest)"
proof (induction s)
  case Nil
  then show ?case by (cases "re_match r []") fastforce+
next
  case (Cons c cs)
  then show ?case by (cases "re_match r (c # cs)") fastforce+
qed

lemma re_search_Cons_None:
  "re_match r (c # cs) = None \<Longrightarrow> re_search r (c # cs) = re_search r cs"
  by simp

lemma re_search_None_Cons:
  "re_search r (c # cs) = None \<Longrightarrow> re_match r (c # cs) = None \<and> re_search r cs = None"
  by (cases "re_match r (c # cs)") auto

lemma header_at_None:
  "header_at s = None \<longleftrightarrow> re_match CheckSimple s = None \<and> re_match CheckDouble s = None"
  by (auto simp add: header_at_def split: option.splits prod.splits)

lemma rewrite_unchanged:
  "re_search CheckSimple s = None \<Longrightarrow> re_search CheckDouble s = None \<Longrightarrow>
     rewrite_headers new s = s"
proof (induction s)
  case Nil
  show ?case by (simp add: rewrite_headers.simps)
next
  case (Cons c cs)
  from Cons.prems have n: "re_match CheckSimple (c # cs) = None" "re_search CheckSimple cs = None"
    "re_match CheckDouble (c # cs) = None" "re_search CheckDouble cs = None"
    using re_search_None_Cons by blast+
  then have "header_at (c # cs) = None" by (simp add: header_at_None)
  then show ?case using Cons.IH n by (simp add: rewrite_no_header)
qed

lemma search_simple_rewrite:
  assumes a: "year4 a" and b: "year4 b"
  shows "re_search CheckSimple (rewrite_headers (canonical a b) s) = None"
proof (induction s rule: length_induct)
  case (1 s)
  let ?new = "canonical a b"
  have new: "take 4 ?new = ''Copy''" by (simp add: canonical_def)
  show ?case
  proof (cases s)
    case Nil
    then show ?thesis
      by (simp add: rewrite_headers.simps no_match_Nil hdr_regex_CheckSimple)
  next
    case (Cons c cs)
    show ?thesis
    proof (cases "header_at s")
      case (Some rest)
      have l: "length rest < length s" using Some by (rule header_at_consumes)
      have "re_search CheckSimple (?new @ rewrite_headers ?new rest) =
          re_search CheckSimple (rewrite_headers ?new rest)"
        by (rule re_search_through_header [OF hdr_regex_CheckSimple is_hdr_canonical [OF a b]
              match_simple_canonical [OF a]])
      then show ?thesis using 1 l rewrite_header [OF Some] by simp
    next
      case None
      then have "re_match CheckSimple (c # cs) = None"
        using Cons by (simp add: header_at_None)
      then have "re_match CheckSimple (c # rewrite_headers ?new cs) = None"
        by (rule straddle [OF hdr_regex_CheckSimple agree_rewrite [OF new]])
      then show ?thesis using 1 None Cons by (simp add: rewrite_no_header)
    qed
  qed
qed

lemma search_double_rewrite:
  assumes a: "year4 a" and b: "year4 b"
  shows "re_search CheckSimple s \<noteq> None \<or> re_search CheckDouble s \<noteq> None \<Longrightarrow>
     re_search CheckDouble (rewrite_headers (canonical a b) s) = Some [a, b]"
proof (induction s rule: length_induct)
  case (1 s)
  let ?new = "canonical a b"
  have new: "take 4 ?new = ''Copy''" by (simp add: canonical_def)
  show ?case
  proof (cases s)
    case Nil
    then show ?thesis
      using "1.prems" by (simp add: no_match_Nil hdr_regex_CheckSimple hdr_regex_CheckDouble)
  next
    case (Cons c cs)
    show ?thesis
    proof (cases "header_at s")
      case (Some rest)
      have "re_search CheckDouble (?new @ rewrite_headers ?new rest) = Some [a, b]"
        by (rule re_search_head [OF match_double_canonical [OF a b]])
      then show ?thesis using rewrite_header [OF Some] by simp
    next
      case None
      then have n: "re_match CheckSimple (c # cs) = None" "re_match CheckDouble (c # cs) = None"
        using Cons by (simp_all add: header_at_None)
      then have "re_search CheckSimple cs \<noteq> None \<or> re_search CheckDouble cs \<noteq> None"
        using "1.prems" Cons by simp
      moreover have "length cs < length s" using Cons by simp
      ultimately have "re_search CheckDouble (rewrite_headers ?new cs) = Some [a, b]"
        using "1.IH" by blast
      moreover have "re_match CheckDouble (c # rewrite_headers ?new cs) = None"
        using n(2) by (rule straddle [OF hdr_regex_CheckDouble agree_rewrite [OF new]])
      ultimately show ?thesis using None Cons by (simp add: rewrite_no_header)
    qed
  qed
qed


lemma digit_char_is_digit: "d < 10 \<Longrightarrow> is_digit (digit_char d)"
proof -
  assume "d < 10"
  then have "d = 0 \<or> d = 1 \<or> d = 2 \<or> d = 3 \<or> d = 4 \<or> d = 5 \<or> d = 6 \<or> d = 7 \<or> d = 8 \<or> d = 9"
    by arith
  then show ?thesis by (elim disjE) (simp_all add: digit_char_def is_digit_def)
qed

lemma digit_val_digit_char: "d < 10 \<Longrightarrow> digit_val (digit_char d) = int d"
proof -
  assume "d < 10"
  then have "d = 0 \<or> d = 1 \<or> d = 2 \<or> d = 3 \<or> d = 4 \<or> d = 5 \<or> d = 6 \<or> d = 7 \<or> d = 8 \<or> d = 9"
    by arith
  then show ?thesis by (elim disjE) (simp_all add: digit_char_def digit_val_def)
qed

lemma digit_val_range: "is_digit c \<Longrightarrow> 0 \<le> digit_val c \<and> digit_val c \<le> 9"
  by (auto simp add: is_digit_def digit_val_def)

declare dec_digits.simps [simp del]

lemma dec_digits_all: "list_all is_digit (dec_digits n)"
proof (induction n rule: dec_digits.induct)
  case (1 n)
  show ?case
  proof (cases "n < 10")
    case True
    then show ?thesis by (simp add: dec_digits.simps [of n] digit_char_is_digit)
  next
    case False
    then show ?thesis using 1 by (simp add: dec_digits.simps [of n] digit_char_is_digit)
  qed
qed

lemma py_int_snoc: "py_int (xs @ [c]) = 10 * py_int xs + digit_val c"
  by (simp add: py_int_def)

lemma py_int_dec_digits: "py_int (dec_digits n) = int n"
proof (induction n rule: dec_digits.induct)
  case (1 n)
  show ?case
  proof (cases "n < 10")
    case True
    then show ?thesis
      by (simp add: dec_digits.simps [of n] py_int_def digit_val_digit_char)
  next
    case False
    then have "py_int (dec_digits n) = 10 * int (n div 10) + int (n mod 10)"
      using 1 by (simp add: dec_digits.simps [of n] py_int_snoc digit_val_digit_char)
    then show ?thesis by (simp add: zdiv_int zmod_int)
  qed
qed

lemma dec_digits_length: "0 < k \<Longrightarrow> n < 10 ^ k \<Longrightarrow> length (dec_digits n) \<le> k"
proof (induction n arbitrary: k rule: dec_digits.induct)
  case (1 n)
  show ?case
  proof (cases "n < 10")
    case True
    then show ?thesis using "1.prems" by (simp add: dec_digits.simps [of n])
  next
    case False
    obtain j where k: "k = Suc j" using "1.prems"(1) by (cases k) auto
    have "j \<noteq> 0" using False "1.prems"(2) k by (cases j) auto
    moreover have "n div 10 < 10 ^ j" using "1.prems"(2) k by (simp add: less_mult_imp_div_less)
    ultimately have "length (dec_digits (n div 10)) \<le> j" using "1.IH" [of j] False by simp
    then show ?thesis using False k by (simp add: dec_digits.simps [of n])
  qed
qed

lemma py_int_zeros: "py_int (replicate k CHR ''0'' @ s) = py_int s"
proof -
  have "foldl (\<lambda>a c. 10 * a + digit_val c) 0 (replicate k CHR ''0'') = 0"
    by (induction k) (simp_all add: digit_val_def)
  then show ?thesis by (simp add: py_int_def)
qed

lemma fmt04d_year4:
  assumes "0 \<le> n" "n \<le> 9999"
  shows "year4 (fmt04d n)"
proof -
  have "nat n < 10 ^ 4" using assms by simp
  then have "length (dec_digits (nat n)) \<le> 4" by (intro dec_digits_length) simp_all
  moreover have "is_digit CHR ''0''" by (simp add: is_digit_def)
  ultimately show ?thesis
    using assms dec_digits_all [of "nat n"]
    by (auto simp add: fmt04d_def zfill_def year4_def list_all_iff)
qed

lemma py_int_fmt04d: "0 \<le> n \<Longrightarrow> py_int (fmt04d n) = n"
  by (simp add: fmt04d_def zfill_def py_int_zeros py_int_dec_digits)

lemma py_int_year4:
  assumes "year4 y"
  shows "0 \<le> py_int y \<and> py_int y \<le> 9999"
proof -
  from assms have l: "length y = 4"
    by (simp add: year4_def)
  obtain a y1 where y1: "y = a # y1" using l by (cases y) auto
  obtain b y2 where y2: "y1 = b # y2" using l y1 by (cases y1) auto
  obtain c y3 where y3: "y2 = c # y3" using l y1 y2 by (cases y2) auto
  obtain d y4 where y4: "y3 = d # y4" using l y1 y2 y3 by (cases y3) auto
  have "y4 = []" using l y1 y2 y3 y4 by simp
  then have y: "y = [a, b, c, d]" using y1 y2 y3 y4 by simp
  with assms have "is_digit a" "is_digit b" "is_digit c" "is_digit d"
    by (simp_all add: year4_def)
  then have bd: "0 \<le> digit_val a" "digit_val a \<le> 9" "0 \<le> digit_val b" "digit_val b \<le> 9"
    "0 \<le> digit_val c" "digit_val c \<le> 9" "0 \<le> digit_val d" "digit_val d \<le> 9"
    by (simp_all add: digit_val_range)
  have eq: "py_int y =
      10 * (10 * (10 * digit_val a + digit_val b) + digit_val c) + digit_val d"
    by (simp add: y py_int_def)
  show ?thesis using bd unfolding eq by simp
qed

lemma matched_iff:
  "getCopyrightYears line \<noteq> None \<longleftrightarrow>
     re_search CheckSimple line \<noteq> None \<or> re_search CheckDouble line \<noteq> None"
  by (simp add: getCopyrightYears_def split: option.splits)

lemma years_of_replaced:
  assumes "getCopyrightYears line \<noteq> None"
    and "0 \<le> start" "start \<le> 9999" "0 \<le> end" "end \<le> 9999"
  shows "getCopyrightYears (replaceCurrentYear line start end) = Some (start, end)"
proof -
  have a: "year4 (fmt04d start)" and b: "year4 (fmt04d end)"
    using assms by (simp_all add: fmt04d_year4)
  have h: "re_search CheckSimple line \<noteq> None \<or> re_search CheckDouble line \<noteq> None"
    using assms(1) unfolding matched_iff .
  show ?thesis
    using search_simple_rewrite [OF a b, of line] search_double_rewrite [OF a b h] assms
    by (simp add: getCopyrightYears_def replaceCurrentYear_rewrite py_int_fmt04d)
qed

lemma years_range:
  assumes "getCopyrightYears line = Some (start, end)"
  shows "0 \<le> start \<and> start \<le> 9999 \<and> 0 \<le> end \<and> end \<le> 9999"
proof (cases "re_search CheckSimple line")
  case (Some g)
  then obtain s' rest where "re_match CheckSimple s' = Some (g, rest)"
    using re_search_SomeD by blast
  then obtain y where y: "g = [y]" "year4 y" using simple_groups by blast
  have "start = py_int y" "end = py_int y"
    using assms Some y(1) by (simp_all add: getCopyrightYears_def)
  then show ?thesis using py_int_year4 [OF y(2)] by simp
next
  case None
  with assms obtain g where g: "re_search CheckDouble line = Some g"
    by (auto simp add: getCopyrightYears_def split: option.splits)
  then obtain s' rest where "re_match CheckDouble s' = Some (g, rest)"
    using re_search_SomeD by blast
  then obtain a b where ab: "g = [a, b]" "year4 a" "year4 b" using double_groups by blast
  have "start = py_int a" "end = py_int b"
    using assms None g ab(1) by (simp_all add: getCopyrightYears_def)
  then show ?thesis using py_int_year4 [OF ab(2)] py_int_year4 [OF ab(3)] by simp
qed


lemma check_line_lineNum: "lineNum (check_line y p st l) = lineNum st + 1"
  by (simp add: check_line_def Let_def split: option.split prod.split)

lemma check_line_crFound: "crFound (check_line y p st l) = (crFound st \<or> matched l)"
  by (auto simp add: check_line_def Let_def matched_def split: option.split prod.split)

lemma check_line_yearMatched:
  "yearMatched (check_line y p st l) = (yearMatched st \<or> validates y l)"
  by (auto simp add: check_line_def Let_def validates_def split: option.split prod.split)

lemma check_line_errs:
  "errs (check_line y p st l) = errs st @ line_issues y p (lineNum st + 1) l"
  by (auto simp add: check_line_def Let_def line_issues_def split: option.split prod.split)

lemma foldl_lineNum:
  "lineNum (foldl (check_line y p) st ls) = lineNum st + int (length ls)"
  by (induction ls arbitrary: st) (simp_all add: check_line_lineNum)

lemma foldl_crFound:
  "crFound (foldl (check_line y p) st ls) = (crFound st \<or> (\<exists>l \<in> set ls. matched l))"
  by (induction ls arbitrary: st) (auto simp add: check_line_crFound)

lemma foldl_yearMatched:
  "yearMatched (foldl (check_line y p) st ls) = (yearMatched st \<or> (\<exists>l \<in> set ls. validates y l))"
  by (induction ls arbitrary: st) (auto simp add: check_line_yearMatched)

lemma foldl_errs:
  "errs (foldl (check_line y p) st ls) = errs st @ issues_from y p (lineNum st) ls"
  by (induction ls arbitrary: st) (simp_all add: check_line_errs check_line_lineNum)

lemma scan_lines_crFound: "crFound (scan_lines y p ls) = (\<exists>l \<in> set ls. matched l)"
  by (simp add: scan_lines_def foldl_crFound scan_init_def)

lemma scan_lines_yearMatched: "yearMatched (scan_lines y p ls) = (\<exists>l \<in> set ls. validates y l)"
  by (simp add: scan_lines_def foldl_yearMatched scan_init_def)

lemma scan_lines_errs: "errs (scan_lines y p ls) = issues_from y p 0 ls"
  by (simp add: scan_lines_def foldl_errs scan_init_def)

lemma line_issues_unmatched: "\<not> matched l \<Longrightarrow> line_issues y p n l = []"
  by (cases "getCopyrightYears l") (simp_all add: line_issues_def matched_def)

lemma unmatched_not_valid: "\<not> matched l \<Longrightarrow> \<not> validates y l"
  by (cases "getCopyrightYears l") (simp_all add: validates_def matched_def)

lemma issues_from_unmatched:
  "\<forall>l \<in> set ls. \<not> matched l \<Longrightarrow> issues_from y p n ls = []"
  by (induction ls arbitrary: n) (simp_all add: line_issues_unmatched)

lemma fixable_Nil: "fixable [] = []"
  by (simp add: fixable_def)

section \<open>The scan and the update of a file\<close>

lemma line_issues_in_issues_from:
  "i < length ls \<Longrightarrow>
     set (line_issues y p (n + int i + 1) (ls ! i)) \<subseteq> set (issues_from y p n ls)"
proof (induction ls arbitrary: n i)
  case Nil
  then show ?case by simp
next
  case (Cons l ls)
  show ?case
  proof (cases i)
    case 0
    then show ?thesis by simp
  next
    case (Suc j)
    then have "j < length ls" using Cons.prems by simp
    then have "set (line_issues y p ((n + 1) + int j + 1) (ls ! j)) \<subseteq> set (issues_from y p (n + 1) ls)"
      by (rule Cons.IH)
    then show ?thesis using Suc by (auto simp add: algebra_simps)
  qed
qed

lemma fixable_append: "fixable (a @ b) = fixable a @ fixable b"
  by (simp add: fixable_def)

lemma fixable_line_issues:
  "fixable (line_issues y p n l) =
     (if matched l \<and> \<not> validates y l then [(p, n, msg_not_current, Some (fix_line y l))]
      else [])"
proof (cases "getCopyrightYears l")
  case None
  then show ?thesis by (simp add: fixable_def line_issues_def matched_def)
next
  case (Some a)
  obtain s e where "a = (s, e)" by (cases a)
  with Some show ?thesis
    by (simp add: fixable_def line_issues_def fix_line_def matched_def validates_def
        issue_replacement_def)
qed

lemma fix_line_unchanged: "\<not> (matched l \<and> \<not> validates y l) \<Longrightarrow> fix_line y l = l"
  by (cases "getCopyrightYears l")
    (auto simp add: fix_line_def matched_def validates_def)

lemma apply_updates_append:
  "apply_updates (a @ b) ls =
     (case apply_updates a ls of Inl e \<Rightarrow> Inl e | Inr ls' \<Rightarrow> apply_updates b ls')"
  by (induction a ls rule: apply_updates.induct) (simp_all split: option.split sum.split)

lemma py_setitem_middle: "py_setitem (pre @ l # post) (int (length pre)) v = Inr (pre @ v # post)"
  by (simp add: py_setitem_def Let_def)

lemma apply_updates_issues:
  "apply_updates (fixable (issues_from y p (int (length pre)) ls)) (pre @ ls) =
     Inr (pre @ map (fix_line y) ls)"
proof (induction ls arbitrary: pre)
  case Nil
  show ?case by (simp add: fixable_def)
next
  case (Cons l ls)
  have ih: "apply_updates (fixable (issues_from y p (int (length (pre @ [v]))) ls)) ((pre @ [v]) @ ls) =
     Inr ((pre @ [v]) @ map (fix_line y) ls)" for v
    by (rule Cons.IH)
  show ?case
  proof (cases "matched l \<and> \<not> validates y l")
    case True
    then show ?thesis
      using ih [of "fix_line y l"] py_setitem_middle [of pre l ls "fix_line y l"]
      by (simp add: fixable_append fixable_line_issues apply_updates_append add.commute)
  next
    case False
    then have "fix_line y l = l" by (rule fix_line_unchanged)
    moreover have "fixable (line_issues y p n l) = []" for n
      using False by (auto simp add: fixable_line_issues)
    ultimately show ?thesis
      using ih [of l]
      by (simp add: fixable_append apply_updates_append add.commute)
  qed
qed

lemma fixable_final_errs:
  "fixable (final_errs p (scan_lines y p ls)) =
     (if \<exists>l \<in> set ls. validates y l then [] else fixable (issues_from y p 0 ls))"
  by (simp add: final_errs_def scan_lines_yearMatched scan_lines_errs scan_lines_crFound
      fixable_append Let_def)
    (simp add: fixable_def issue_replacement_def)

lemma map_fix_line_valid:
  "\<forall>l \<in> set ls. \<not> (matched l \<and> \<not> validates y l) \<Longrightarrow> map (fix_line y) ls = ls"
  by (induction ls) (simp_all add: fix_line_unchanged)

lemma checkCopyright_eq:
  assumes "read_lines w f = Inr lines"
  shows "checkCopyright thisYear f upd w =
     (let path = source_path f; es = final_errs path (scan_lines thisYear path lines) in
      if upd \<and> fixable es \<noteq> [] then
        (Inr es, write_lines path (map (fix_line thisYear) lines)
                   (print (ChangingLines path (map issue_line (fixable es))) w))
      else (Inr es, w))"
proof -
  let ?p = "source_path f"
  let ?es = "final_errs ?p (scan_lines thisYear ?p lines)"
  have "apply_updates (fixable ?es) lines = Inr (map (fix_line thisYear) lines)"
    if "fixable ?es \<noteq> []"
  proof -
    from that have "fixable ?es = fixable (issues_from thisYear ?p 0 lines)"
      by (simp add: fixable_final_errs split: if_splits)
    then show ?thesis
      using apply_updates_issues [of thisYear ?p "[]" lines] by simp
  qed
  then show ?thesis
    using assms by (simp add: checkCopyright_def Let_def)
qed

lemma issue_of_line:
  assumes "i < length lines"
    and "e \<in> set (line_issues y p (int i + 1) (lines ! i))"
  shows "e \<in> set (errs (scan_lines y p lines))"
  using line_issues_in_issues_from [OF assms(1), of y p 0] assms(2)
  by (auto simp add: scan_lines_errs)

lemma returned_when_not_suppressed:
  assumes "read_lines w f = Inr lines"
    and "\<forall>l \<in> set lines. \<not> validates y l"
    and "e \<in> set (errs (scan_lines y (source_path f) lines))"
  shows "\<exists>es w'. checkCopyright y f upd w = (Inr es, w') \<and> e \<in> set es"
proof -
  have "e \<in> set (final_errs (source_path f) (scan_lines y (source_path f) lines))"
    using assms(2,3) by (simp add: final_errs_def scan_lines_yearMatched)
  then show ?thesis
    by (simp add: checkCopyright_eq [OF assms(1)] Let_def)
qed









lemma files_under_dirs_missing:
  "d \<in> set ds \<Longrightarrow> \<not> isdir e d \<Longrightarrow> \<exists>x. files_under_dirs e flt ds = Inl (ValueError x)"
proof (induction ds)
  case Nil
  then show ?case by simp
next
  case (Cons d' ds)
  show ?case
  proof (cases "isdir e d'")
    case False
    then show ?thesis by simp
  next
    case True
    with Cons.prems have "d \<in> set ds" by auto
    then obtain x where "files_under_dirs e flt ds = Inl (ValueError x)"
      using Cons.IH Cons.prems(2) by blast
    with True show ?thesis by simp
  qed
qed

lemma concat_readlines: "concat (readlines s) = s"
  by (induction s) (auto split: list.splits)

lemma splitlines_keepends_Nil_iff: "splitlines_keepends s = [] \<longleftrightarrow> s = []"
  by (cases s rule: splitlines_keepends.cases) (auto split: list.splits)

lemma concat_splitlines_keepends: "concat (splitlines_keepends s) = s"
  by (induction s rule: splitlines_keepends.induct)
    (auto simp add: splitlines_keepends_Nil_iff split: list.splits)

lemma universal_newlines_no_CR: "CR \<notin> set (universal_newlines s)"
  by (induction s rule: universal_newlines.induct) (auto simp add: LF_def CR_def)

lemma universal_newlines_id: "CR \<notin> set s \<Longrightarrow> universal_newlines s = s"
  by (induction s rule: universal_newlines.induct) auto

lemma readlines_Nil_iff: "readlines s = [] \<longleftrightarrow> s = []"
  by (cases s) (auto split: list.splits)

lemma line_list_Cons:
  "line_list (l # ls) =
     (l \<noteq> [] \<and> LF \<notin> set (butlast l) \<and> (ls \<noteq> [] \<longrightarrow> last l = LF \<and> line_list ls))"
  by (cases ls) auto

lemma line_list_readlines: "line_list (readlines s)"
proof (induction s)
  case Nil
  show ?case by simp
next
  case (Cons c s)
  show ?case
  proof (cases "c = LF")
    case True
    then show ?thesis using Cons by (simp add: line_list_Cons)
  next
    case False
    show ?thesis
    proof (cases "readlines s")
      case Nil
      with False show ?thesis by simp
    next
      case (Cons l ls)
      with False \<open>line_list (readlines s)\<close> show ?thesis
        by (auto simp add: line_list_Cons)
    qed
  qed
qed

lemma readlines_line:
  assumes "LF \<notin> set b"
  shows "readlines (b @ LF # s) = (b @ [LF]) # readlines s"
  using assms by (induction b) auto

lemma readlines_last_line:
  assumes "LF \<notin> set b" "b \<noteq> []"
  shows "readlines b = [b]"
  using assms
proof (induction b)
  case Nil
  then show ?case by simp
next
  case (Cons c b)
  then show ?case by (cases b) auto
qed

lemma readlines_concat: "line_list ls \<Longrightarrow> readlines (concat ls) = ls"
proof (induction ls)
  case Nil
  show ?case by simp
next
  case (Cons l ls)
  then have l: "l \<noteq> []" "LF \<notin> set (butlast l)" by (simp_all add: line_list_Cons)
  show ?case
  proof (cases "last l = LF")
    case True
    then have "l = butlast l @ [LF]" using l(1) by (metis append_butlast_last_id)
    then have "readlines (concat (l # ls)) = l # readlines (concat ls)"
      using readlines_line [OF l(2), of "concat ls"] by (metis append.assoc append_Cons append_Nil concat.simps(2))
    moreover have "line_list ls" using Cons.prems by (cases ls) (simp_all add: line_list_Cons)
    ultimately show ?thesis using Cons.IH by simp
  next
    case False
    then have "ls = []" using Cons.prems by (simp add: line_list_Cons)
    moreover have "LF \<notin> set l"
      using False l by (metis append_butlast_last_id insert_iff list.set(2) rotate1.simps(2) set_rotate1)
    ultimately show ?thesis using readlines_last_line [OF _ l(1)] by simp
  qed
qed

lemma header_at_SomeD:
  assumes "header_at s = Some rest"
  shows "\<exists>m. s = m @ rest \<and> is_hdr m \<and> (\<forall>z. header_at (m @ z) = Some z)"
proof (cases "re_match CheckSimple s")
  case (Some a)
  then obtain g where m: "re_match CheckSimple s = Some (g, rest)"
    using assms by (cases a) (simp add: header_at_def)
  then obtain t where "s = t @ rest" "is_hdr t" "\<forall>z. re_match CheckSimple (t @ z) = Some (g, z)"
    using hdr_regex_CheckSimple unfolding hdr_regex_def by blast
  then show ?thesis by (auto simp add: header_at_def)
next
  case None
  then obtain g where m: "re_match CheckDouble s = Some (g, rest)"
    using assms by (auto simp add: header_at_def split: option.splits)
  then obtain t where t: "s = t @ rest" "is_hdr t"
    and cl: "\<forall>z. re_match CheckDouble (t @ z) = Some (g, z)"
    using hdr_regex_CheckDouble unfolding hdr_regex_def by blast
  have "re_match CheckSimple (t @ z) = None" for z
  proof (cases "re_match CheckSimple (t @ z)")
    case None then show ?thesis .
  next
    case (Some a)
    then have "re_match CheckDouble (t @ z) = None"
      using not_both [of "t @ z"] by (cases a) simp
    with cl show ?thesis by simp
  qed
  with t cl show ?thesis by (auto simp add: header_at_def)
qed

lemma header_at_append_LF:
  "header_at (x @ [LF]) = (case header_at x of None \<Rightarrow> None | Some rest \<Rightarrow> Some (rest @ [LF]))"
proof (cases "header_at x")
  case (Some rest)
  then obtain m where "x = m @ rest" "\<forall>z. header_at (m @ z) = Some z"
    using header_at_SomeD by blast
  then have "header_at (x @ [LF]) = Some (rest @ [LF])" by simp
  with Some show ?thesis by simp
next
  case None
  have "header_at (x @ [LF]) = None"
  proof (cases "header_at (x @ [LF])")
    case None then show ?thesis .
  next
    case (Some rest)
    then obtain m where m: "x @ [LF] = m @ rest" "is_hdr m"
      and cl: "\<forall>z. header_at (m @ z) = Some z"
      using header_at_SomeD by blast
    have "LF \<notin> set m" using m(2) is_hdr_no_newline by blast
    then have "rest \<noteq> []" using m(1) by (metis append_Nil2 in_set_conv_decomp)
    then obtain r' where "rest = r' @ [last rest]" by (metis append_butlast_last_id)
    with m(1) have "x = m @ r'" by (metis append_assoc butlast_snoc)
    then have "header_at x = Some r'" using cl by simp
    with None show ?thesis by simp
  qed
  with None show ?thesis by simp
qed

lemma rewrite_append_LF: "rewrite_headers new (x @ [LF]) = rewrite_headers new x @ [LF]"
proof (induction x rule: length_induct)
  case (1 x)
  show ?case
  proof (cases x)
    case Nil
    have "header_at [LF] = None"
      using header_at_append_LF [of "[]"] header_at_consumes [of "[]"]
      by (cases "header_at []") auto
    then show ?thesis using Nil by (simp add: rewrite_no_header rewrite_headers.simps(1))
  next
    case (Cons c cs)
    show ?thesis
    proof (cases "header_at x")
      case None
      then have "header_at (c # (cs @ [LF])) = None"
        using header_at_append_LF [of x] Cons by simp
      then show ?thesis
        using None Cons 1 by (simp add: rewrite_no_header)
    next
      case (Some rest)
      then have "header_at (x @ [LF]) = Some (rest @ [LF])"
        by (simp add: header_at_append_LF)
      then have "rewrite_headers new (x @ [LF]) = new @ rewrite_headers new (rest @ [LF])"
        by (rule rewrite_header)
      moreover have "length rest < length x" using Some by (rule header_at_consumes)
      ultimately show ?thesis using 1 rewrite_header [OF Some, of new] by simp
    qed
  qed
qed

lemma set_rewrite: "set (rewrite_headers new x) \<subseteq> set x \<union> set new"
proof (induction x rule: length_induct)
  case (1 x)
  show ?case
  proof (cases x)
    case Nil
    then show ?thesis by (simp add: rewrite_headers.simps(1))
  next
    case (Cons c cs)
    show ?thesis
    proof (cases "header_at x")
      case None
      then show ?thesis using Cons 1 by (auto simp add: rewrite_no_header)
    next
      case (Some rest)
      then obtain m where m: "x = m @ rest" using header_at_SomeD by blast
      have "length rest < length x" using Some by (rule header_at_consumes)
      then have "set (rewrite_headers new rest) \<subseteq> set rest \<union> set new" using 1 by blast
      then show ?thesis using rewrite_header [OF Some, of new] m by auto
    qed
  qed
qed

lemma rewrite_nonempty: "x \<noteq> [] \<Longrightarrow> new \<noteq> [] \<Longrightarrow> rewrite_headers new x \<noteq> []"
proof (cases x)
  case Nil
  then show "x \<noteq> [] \<Longrightarrow> ?thesis" by simp
next
  case (Cons c cs)
  assume "new \<noteq> []"
  then show ?thesis
    using Cons rewrite_header [of x _ new]
    by (cases "header_at x") (simp_all add: rewrite_no_header)
qed

lemma fmt04d_chars: "LF \<notin> set (fmt04d n) \<and> CR \<notin> set (fmt04d n)"
proof -
  have "\<forall>c \<in> set (dec_digits k). is_digit c" for k
    using dec_digits_all [of k] by (simp add: list_all_iff)
  then have "LF \<notin> set (dec_digits k) \<and> CR \<notin> set (dec_digits k)" for k
    using digit_chars by blast
  then show ?thesis
    by (auto simp add: fmt04d_def zfill_def LF_def CR_def)
qed

lemma canonical_chars:
  "LF \<notin> set (canonical (fmt04d a) (fmt04d b)) \<and> CR \<notin> set (canonical (fmt04d a) (fmt04d b))"
  using fmt04d_chars [of a] fmt04d_chars [of b]
  by (simp add: canonical_def LF_def CR_def)

lemma replace_line_shape:
  assumes "l \<noteq> []" "LF \<notin> set (butlast l)"
  shows "replaceCurrentYear l a b \<noteq> [] \<and> LF \<notin> set (butlast (replaceCurrentYear l a b)) \<and>
         (last l = LF \<longrightarrow> last (replaceCurrentYear l a b) = LF) \<and>
         (CR \<notin> set l \<longrightarrow> CR \<notin> set (replaceCurrentYear l a b))"
proof -
  let ?new = "canonical (fmt04d a) (fmt04d b)"
  have new: "?new \<noteq> []" by (simp add: canonical_def)
  have ne: "rewrite_headers ?new l \<noteq> []" using assms(1) new by (rule rewrite_nonempty)
  have cr: "CR \<notin> set l \<longrightarrow> CR \<notin> set (rewrite_headers ?new l)"
    using set_rewrite [of ?new l] canonical_chars [of a b] by auto
  have lf: "LF \<notin> set (butlast (rewrite_headers ?new l)) \<and>
      (last l = LF \<longrightarrow> last (rewrite_headers ?new l) = LF)"
  proof (cases "last l = LF")
    case True
    then have "l = butlast l @ [LF]" using assms(1) by (metis append_butlast_last_id)
    then have "rewrite_headers ?new l = rewrite_headers ?new (butlast l) @ [LF]"
      using rewrite_append_LF [of ?new "butlast l"] by simp
    moreover have "LF \<notin> set (rewrite_headers ?new (butlast l))"
      using set_rewrite [of ?new "butlast l"] canonical_chars [of a b] assms(2) by auto
    ultimately show ?thesis by simp
  next
    case False
    then have "LF \<notin> set l"
      using assms by (metis append_butlast_last_id insert_iff list.set(2) rotate1.simps(2) set_rotate1)
    then have "LF \<notin> set (rewrite_headers ?new l)"
      using set_rewrite [of ?new l] canonical_chars [of a b] by auto
    then show ?thesis using False by (meson in_set_butlastD)
  qed
  show ?thesis using ne cr lf by (simp add: replaceCurrentYear_rewrite)
qed

lemma fix_line_shape:
  assumes "l \<noteq> []" "LF \<notin> set (butlast l)"
  shows "fix_line y l \<noteq> [] \<and> LF \<notin> set (butlast (fix_line y l)) \<and>
         (last l = LF \<longrightarrow> last (fix_line y l) = LF) \<and>
         (CR \<notin> set l \<longrightarrow> CR \<notin> set (fix_line y l))"
  using assms replace_line_shape [OF assms]
  by (auto simp add: fix_line_def split: option.splits)

lemma line_list_fix: "line_list ls \<Longrightarrow> line_list (map (fix_line y) ls)"
proof (induction ls)
  case Nil
  show ?case by simp
next
  case (Cons l ls)
  then have l: "l \<noteq> []" "LF \<notin> set (butlast l)" by (simp_all add: line_list_Cons)
  show ?case
    using Cons fix_line_shape [OF l, of y] by (auto simp add: line_list_Cons)
qed

lemma line_list_nonempty: "line_list ls \<Longrightarrow> l \<in> set ls \<Longrightarrow> l \<noteq> [] \<and> LF \<notin> set (butlast l)"
  by (induction ls) (auto simp add: line_list_Cons)

lemma no_CR_fix:
  assumes "line_list ls" "CR \<notin> set (concat ls)"
  shows "CR \<notin> set (concat (map (fix_line y) ls))"
proof -
  have "CR \<notin> set (fix_line y l)" if "l \<in> set ls" for l
  proof -
    have "l \<noteq> []" "LF \<notin> set (butlast l)" using line_list_nonempty [OF assms(1) that] by simp_all
    moreover have "CR \<notin> set l" using assms(2) that by auto
    ultimately show ?thesis using fix_line_shape [of l y] by blast
  qed
  then show ?thesis by auto
qed

lemma reread_fixed_lines:
  assumes "lines = readlines (universal_newlines content)"
  shows "readlines (universal_newlines (concat (map (fix_line y) lines))) = map (fix_line y) lines"
proof -
  have ll: "line_list lines" using assms by (simp add: line_list_readlines)
  have "CR \<notin> set (concat lines)"
    using assms by (simp add: concat_readlines universal_newlines_no_CR)
  then have "CR \<notin> set (concat (map (fix_line y) lines))"
    using ll by (intro no_CR_fix)
  then have "universal_newlines (concat (map (fix_line y) lines)) = concat (map (fix_line y) lines)"
    by (rule universal_newlines_id)
  then show ?thesis
    using readlines_concat [OF line_list_fix [OF ll, of y]] by simp
qed

lemma suppressed_result:
  assumes "read_lines w f = Inr lines" and "\<exists>l \<in> set lines. validates y l"
  shows "checkCopyright y f upd w = (Inr [], w)"
proof -
  have "final_errs (source_path f) (scan_lines y (source_path f) lines) = []"
    using assms(2) by (simp add: final_errs_def scan_lines_yearMatched)
  then show ?thesis
    by (simp add: checkCopyright_eq [OF assms(1)] fixable_Nil)
qed

lemma fixable_issues_from_Nil_iff:
  "fixable (issues_from y p n ls) = [] \<longleftrightarrow> (\<forall>l \<in> set ls. \<not> (matched l \<and> \<not> validates y l))"
  by (induction ls arbitrary: n) (auto simp add: fixable_append fixable_line_issues fixable_Nil)

lemma fixable_issues_from_iff:
  "e \<in> set (fixable (issues_from y p n ls)) \<longleftrightarrow>
     (\<exists>i < length ls. matched (ls ! i) \<and> \<not> validates y (ls ! i) \<and>
        e = (p, n + int i + 1, msg_not_current, Some (fix_line y (ls ! i))))"
proof (induction ls arbitrary: n)
  case Nil
  show ?case by (simp add: fixable_Nil)
next
  case (Cons l ls)
  have split: "(\<exists>i < length (l # ls). P i) \<longleftrightarrow> P 0 \<or> (\<exists>j < length ls. P (Suc j))" for P
    by (auto simp add: less_Suc_eq_0_disj)
  have "e \<in> set (fixable (issues_from y p n (l # ls))) \<longleftrightarrow>
      e \<in> set (fixable (line_issues y p (n + 1) l)) \<or>
      e \<in> set (fixable (issues_from y p (n + 1) ls))"
    by (simp add: fixable_append)
  also have "e \<in> set (fixable (line_issues y p (n + 1) l)) \<longleftrightarrow>
      matched l \<and> \<not> validates y l \<and> e = (p, n + int 0 + 1, msg_not_current, Some (fix_line y l))"
    by (auto simp add: fixable_line_issues)
  also have "e \<in> set (fixable (issues_from y p (n + 1) ls)) \<longleftrightarrow>
      (\<exists>j < length ls. matched (ls ! j) \<and> \<not> validates y (ls ! j) \<and>
        e = (p, n + int (Suc j) + 1, msg_not_current, Some (fix_line y (ls ! j))))"
  proof -
    have "n + 1 + int j + 1 = n + int (Suc j) + 1" for j by simp
    then show ?thesis by (simp only: Cons.IH [of "n + 1"])
  qed
  finally show ?case
    by (subst split) simp
qed

lemma fix_line_validates:
  assumes "getCopyrightYears l = Some (s, e)"
    and "\<not> (e < y \<and> y < s)" and "0 \<le> y" "y \<le> 9999"
  shows "validates y (fix_line y l)"
proof -
  have r: "0 \<le> s \<and> s \<le> 9999 \<and> 0 \<le> e \<and> e \<le> 9999"
    using assms(1) by (rule years_range)
  have m: "getCopyrightYears l \<noteq> None" using assms(1) by simp
  show ?thesis
  proof (cases "y > e")
    case True
    then have "getCopyrightYears (fix_line y l) = Some (s, y)"
      using assms r years_of_replaced [OF m, of s y] by (simp add: fix_line_def)
    then show ?thesis using True assms(2) by (simp add: validates_def)
  next
    case False
    note ye = this
    show ?thesis
    proof (cases "y < s")
      case True
      then have "getCopyrightYears (fix_line y l) = Some (y, e)"
        using assms r ye years_of_replaced [OF m, of y e] by (simp add: fix_line_def)
      then show ?thesis using ye by (simp add: validates_def)
    next
      case False
      then show ?thesis using ye assms(1) by (simp add: fix_line_def validates_def)
    qed
  qed
qed

lemma second_run_on_inverted_around:
  "files (snd (checkCopyright 2024 (Path ''a.py'') True (ex_world inverted_around))) ''a.py'' =
     Some (''# Copyright (c) 2030-2024, NVIDIA CORPORATION'' @ [LF]) \<and>
   fst (checkCopyright 2024 (Path ''a.py'') True
     (snd (checkCopyright 2024 (Path ''a.py'') True (ex_world inverted_around)))) =
     Inr [(''a.py'', 1, msg_inverted, None),
          (''a.py'', 1, msg_not_current,
           Some (''# Copyright (c) 2024-2024, NVIDIA CORPORATION'' @ [LF]))]"
  by code_simp

lemma of_char_less_256: "(of_char c :: nat) < 256"
  by (cases c) simp

lemma utf8_decode_ascii:
  "(of_char b :: nat) < 128 \<Longrightarrow> utf8_decode (b # bs) = map_option ((#) b) (utf8_decode bs)"
  by (cases bs) simp_all

lemma utf8_decode_two:
  assumes "(of_char b :: nat) = 192 + h" and "h = 2 \<or> h = 3"
    and "(of_char b2 :: nat) = 128 + l" and "l < 64"
  shows "utf8_decode (b # b2 # bs) = map_option ((#) (char_of (h * 64 + l))) (utf8_decode bs)"
  using assms by auto

lemma utf8_decode_encode_char:
  "utf8_decode (utf8_encode_char c @ bs) = map_option ((#) c) (utf8_decode bs)"
proof (cases "(of_char c :: nat) < 128")
  case True
  then show ?thesis by (simp add: utf8_encode_char_def utf8_decode_ascii)
next
  case False
  define n where "n = (of_char c :: nat)"
  have n: "128 \<le> n" "n < 256" using False of_char_less_256 [of c] by (simp_all add: n_def)
  then have d: "n div 64 = 2 \<or> n div 64 = 3" by arith
  have m: "n mod 64 < 64" by simp
  have lead: "(of_char (char_of (192 + n div 64) :: char) :: nat) = 192 + n div 64"
    using d by auto
  have cont: "(of_char (char_of (128 + n mod 64) :: char) :: nat) = 128 + n mod 64"
    using m by (simp add: mod_if)
  have "n div 64 * 64 + n mod 64 = n" by simp
  then have dec: "(char_of (n div 64 * 64 + n mod 64) :: char) = c"
    by (simp only: n_def char_of_char)
  have "utf8_encode_char c = [char_of (192 + n div 64), char_of (128 + n mod 64)]"
    using False by (simp add: utf8_encode_char_def n_def)
  then show ?thesis
    using utf8_decode_two [OF lead d cont m, of bs] by (simp only: dec append_Cons append_Nil)
qed

lemma utf8_decode_encode: "utf8_decode (utf8_encode t) = Some t"
  by (induction t) (simp_all add: utf8_encode_def utf8_decode_encode_char)

lemma utf8_encode_concat: "utf8_encode (concat ls) = concat (map utf8_encode ls)"
  by (induction ls) (simp_all add: utf8_encode_def)

lemma file_bytes_written:
  "files w p = Some (concat ls) \<Longrightarrow> file_bytes w p = Some (concat (map utf8_encode ls))"
  by (simp add: file_bytes_def utf8_encode_concat)

lemma utf8_decode_lines: "utf8_decode (concat (map utf8_encode ls)) = Some (concat ls)"
  using utf8_decode_encode [of "concat ls"] by (simp add: utf8_encode_concat)

lemma lines_of_content:
  assumes "read_lines w f = Inr lines"
    and "files w (source_path f) = Some content"
    and "\<forall>d. f = Diff d \<longrightarrow> b_blob d = content"
  shows "concat lines = (case f of Path p \<Rightarrow> universal_newlines content | Diff d \<Rightarrow> content)"
    and "CR \<notin> set content \<longrightarrow> concat lines = content"
proof -
  show a: "concat lines = (case f of Path p \<Rightarrow> universal_newlines content | Diff d \<Rightarrow> content)"
  proof (cases f)
    case (Path p)
    then show ?thesis
      using assms(1,2) by (auto simp add: read_lines_def source_path_def concat_readlines)
  next
    case (Diff d)
    then show ?thesis
      using assms(1,3) by (auto simp add: read_lines_def concat_splitlines_keepends)
  qed
  show "CR \<notin> set content \<longrightarrow> concat lines = content"
    using a by (cases f) (simp_all add: universal_newlines_id)
qed

section \<open>The claims\<close>

text \<open>
  C1.  When some line of the file read yields years with
  \<open>start \<le> thisYear \<le> end\<close>, \<^verbatim>\<open>checkCopyright\<close> returns the empty list of issues,
  whatever the other lines are (inverted ranges, stale years), prints nothing and
  leaves every file as it is, with or without the update flag.
\<close>

theorem valid_line_suppresses:
  assumes "read_lines w f = Inr lines"
    and "line \<in> set lines"
    and "getCopyrightYears line = Some (start, end)"
    and "start \<le> thisYear" and "thisYear \<le> end"
  shows "checkCopyright thisYear f upd w = (Inr [], w)"
proof -
  have "validates thisYear line"
    using assms(3-5) by (simp add: validates_def)
  then have "yearMatched (scan_lines thisYear (source_path f) lines)"
    using assms(2) by (auto simp add: scan_lines_yearMatched)
  then have "final_errs (source_path f) (scan_lines thisYear (source_path f) lines) = []"
    by (simp add: final_errs_def)
  then show ?thesis
    using assms(1) by (simp add: checkCopyright_def fixable_Nil)
qed

theorem valid_line_suppresses_witness:
  "checkCopyright 2024 (Path ''a.py'') True (ex_world two_headers) =
     (Inr [], ex_world two_headers)"
proof -
  let ?l1 = "''# Copyright (c) 2030-2010, NVIDIA CORPORATION'' @ [LF]"
  let ?l2 = "''# Copyright (c) 2019-2024, NVIDIA CORPORATION'' @ [LF]"
  have r: "read_lines (ex_world two_headers) (Path ''a.py'') = Inr [?l1, ?l2]"
    by code_simp
  have m: "?l2 \<in> set [?l1, ?l2]" by simp
  have y: "getCopyrightYears ?l2 = Some (2019, 2024)" by code_simp
  show ?thesis
    by (rule valid_line_suppresses [OF r m y]) simp_all
qed

text \<open>
  C6.  When no line of the file matches the single-year or the range pattern,
  \<^verbatim>\<open>checkCopyright\<close> returns exactly one issue: the missing header, at line 0,
  without replacement text; nothing is printed or written.
\<close>

theorem missing_header_issue:
  assumes "read_lines w f = Inr lines"
    and "\<forall>line \<in> set lines.
           re_search CheckSimple line = None \<and> re_search CheckDouble line = None"
  shows "checkCopyright thisYear f upd w =
           (Inr [(source_path f, 0, msg_missing, None)], w)"
proof -
  have un: "\<forall>l \<in> set lines. \<not> matched l"
    using assms(2) by (simp add: matched_def getCopyrightYears_def)
  then have "\<forall>l \<in> set lines. \<not> validates thisYear l"
    by (simp add: unmatched_not_valid)
  with un have "final_errs (source_path f) (scan_lines thisYear (source_path f) lines)
      = [(source_path f, 0, msg_missing, None)]"
    by (simp add: final_errs_def scan_lines_crFound scan_lines_yearMatched scan_lines_errs
        issues_from_unmatched)
  then show ?thesis
    using assms(1) by (simp add: checkCopyright_def fixable_def issue_replacement_def)
qed

theorem missing_header_issue_witness:
  "checkCopyright 2024 (Path ''a.py'') True (ex_world no_header) =
     (Inr [(''a.py'', 0, msg_missing, None)], ex_world no_header)"
proof -
  let ?l1 = "''import os'' @ [LF]"
  let ?l2 = "''# Copyright 2019 NVIDIA'' @ [LF]"
  have r: "read_lines (ex_world no_header) (Path ''a.py'') = Inr [?l1, ?l2]"
    by code_simp
  have s1: "re_search CheckSimple ?l1 = None" "re_search CheckDouble ?l1 = None"
    "re_search CheckSimple ?l2 = None" "re_search CheckDouble ?l2 = None"
    by code_simp+
  have n: "\<forall>line \<in> set [?l1, ?l2].
      re_search CheckSimple line = None \<and> re_search CheckDouble line = None"
    using s1 by simp
  show ?thesis
    using missing_header_issue [OF r n, of 2024 True] by (simp add: source_path_def)
qed

text \<open>
  C3.  For every matched line with \<open>end < thisYear\<close> and \<open>start \<le> thisYear\<close> (in a
  year up to 9999), the scan adds the issue that the current year is not included,
  with the replacement line \<^verbatim>\<open>replaceCurrentYear(line, start, thisYear)\<close>; the years
  of that line are \<open>(start, thisYear)\<close>; and the call returns the issue unless another
  line validates.  In particular the file \<^verbatim>\<open>Copyright (c) 2019, NVIDIA CORPORATION\<close>
  in 2024 yields the one issue with the replacement
  \<^verbatim>\<open>Copyright (c) 2019-2024, NVIDIA CORPORATION\<close>, which the update flag writes.
\<close>

theorem stale_year_issue:
  assumes "read_lines w f = Inr lines"
    and "i < length lines"
    and "getCopyrightYears (lines ! i) = Some (start, end)"
    and "end < thisYear" and "start \<le> thisYear" and "thisYear \<le> 9999"
  shows "(source_path f, int i + 1, msg_not_current,
            Some (replaceCurrentYear (lines ! i) start thisYear))
           \<in> set (errs (scan_lines thisYear (source_path f) lines)) \<and>
         getCopyrightYears (replaceCurrentYear (lines ! i) start thisYear)
           = Some (start, thisYear) \<and>
         ((\<forall>l \<in> set lines. \<not> validates thisYear l) \<longrightarrow>
            (\<exists>es w'. checkCopyright thisYear f upd w = (Inr es, w') \<and>
               (source_path f, int i + 1, msg_not_current,
                 Some (replaceCurrentYear (lines ! i) start thisYear)) \<in> set es)) \<and>
         fst (checkCopyright 2024 (Path ''a.py'') True (ex_world stale_single)) =
           Inr [(''a.py'', 1, msg_not_current,
                 Some ''Copyright (c) 2019-2024, NVIDIA CORPORATION'')] \<and>
         files (snd (checkCopyright 2024 (Path ''a.py'') True (ex_world stale_single))) ''a.py'' =
           Some ''Copyright (c) 2019-2024, NVIDIA CORPORATION''"
proof -
  let ?e = "(source_path f, int i + 1, msg_not_current,
      Some (replaceCurrentYear (lines ! i) start thisYear))"
  have "?e \<in> set (line_issues thisYear (source_path f) (int i + 1) (lines ! i))"
    using assms(3,4) by (simp add: line_issues_def)
  then have a: "?e \<in> set (errs (scan_lines thisYear (source_path f) lines))"
    by (rule issue_of_line [OF assms(2)])
  have r: "0 \<le> start \<and> start \<le> 9999 \<and> 0 \<le> end \<and> end \<le> 9999"
    using assms(3) by (rule years_range)
  then have b: "getCopyrightYears (replaceCurrentYear (lines ! i) start thisYear)
      = Some (start, thisYear)"
    using assms(3-6) by (intro years_of_replaced) simp_all
  have c: "(\<forall>l \<in> set lines. \<not> validates thisYear l) \<longrightarrow>
      (\<exists>es w'. checkCopyright thisYear f upd w = (Inr es, w') \<and> ?e \<in> set es)"
    using returned_when_not_suppressed [OF assms(1) _ a] by blast
  have d: "fst (checkCopyright 2024 (Path ''a.py'') True (ex_world stale_single)) =
      Inr [(''a.py'', 1, msg_not_current,
            Some ''Copyright (c) 2019-2024, NVIDIA CORPORATION'')]"
    "files (snd (checkCopyright 2024 (Path ''a.py'') True (ex_world stale_single))) ''a.py'' =
      Some ''Copyright (c) 2019-2024, NVIDIA CORPORATION''"
    by code_simp+
  from a b c d show ?thesis by blast
qed

theorem stale_year_issue_witness:
  "(''a.py'', 1, msg_not_current, Some (replaceCurrentYear stale_single 2019 2024))
     \<in> set (errs (scan_lines 2024 ''a.py'' [stale_single])) \<and>
   getCopyrightYears (replaceCurrentYear stale_single 2019 2024) = Some (2019, 2024) \<and>
   (\<exists>es w'. checkCopyright 2024 (Path ''a.py'') True (ex_world stale_single) = (Inr es, w') \<and>
      (''a.py'', 1, msg_not_current, Some (replaceCurrentYear stale_single 2019 2024)) \<in> set es)"
proof -
  have r: "read_lines (ex_world stale_single) (Path ''a.py'') = Inr [stale_single]"
    by code_simp
  have i: "0 < length [stale_single]" by simp
  have y: "getCopyrightYears ([stale_single] ! 0) = Some (2019, 2019)"
    by code_simp
  have v: "\<forall>l \<in> set [stale_single]. \<not> validates 2024 l"
    by code_simp
  show ?thesis
    using stale_year_issue [OF r i y, of 2024 True] v
    by (simp add: source_path_def)
qed

text \<open>
  C4, as stated, fails on a line whose range is inverted around the current year: for
  the years 2030-2010 in 2024 the replacement carries the range (2030, 2024), not
  (2024, 2010), because the second assignment to the replacement overwrites the first.
\<close>

theorem future_start_counterexample:
  "getCopyrightYears inverted_around = Some (2030, 2010) \<and>
   fst (checkCopyright 2024 (Path ''a.py'') False (ex_world inverted_around)) =
     Inr [(''a.py'', 1, msg_inverted, None),
          (''a.py'', 1, msg_not_current,
           Some (''# Copyright (c) 2030-2024, NVIDIA CORPORATION'' @ [LF]))] \<and>
   getCopyrightYears (''# Copyright (c) 2030-2024, NVIDIA CORPORATION'' @ [LF]) =
     Some (2030, 2024)"
  by code_simp

text \<open>
  C4, amended.  For every matched line with \<open>thisYear < start\<close> and
  \<open>thisYear \<le> end\<close> (so for every such line whose range is not inverted), the scan
  adds the issue that the current year is not included, with the replacement line
  \<^verbatim>\<open>replaceCurrentYear(line, thisYear, end)\<close>; the years of that line are
  \<open>(thisYear, end)\<close>; and the call returns the issue unless another line validates.
\<close>

theorem future_start_issue:
  assumes "read_lines w f = Inr lines"
    and "i < length lines"
    and "getCopyrightYears (lines ! i) = Some (start, end)"
    and "thisYear < start" and "thisYear \<le> end" and "0 \<le> thisYear"
  shows "(source_path f, int i + 1, msg_not_current,
            Some (replaceCurrentYear (lines ! i) thisYear end))
           \<in> set (errs (scan_lines thisYear (source_path f) lines)) \<and>
         getCopyrightYears (replaceCurrentYear (lines ! i) thisYear end)
           = Some (thisYear, end) \<and>
         ((\<forall>l \<in> set lines. \<not> validates thisYear l) \<longrightarrow>
            (\<exists>es w'. checkCopyright thisYear f upd w = (Inr es, w') \<and>
               (source_path f, int i + 1, msg_not_current,
                 Some (replaceCurrentYear (lines ! i) thisYear end)) \<in> set es))"
proof -
  let ?e = "(source_path f, int i + 1, msg_not_current,
      Some (replaceCurrentYear (lines ! i) thisYear end))"
  have "?e \<in> set (line_issues thisYear (source_path f) (int i + 1) (lines ! i))"
    using assms(3-5) by (simp add: line_issues_def)
  then have a: "?e \<in> set (errs (scan_lines thisYear (source_path f) lines))"
    by (rule issue_of_line [OF assms(2)])
  have r: "0 \<le> start \<and> start \<le> 9999 \<and> 0 \<le> end \<and> end \<le> 9999"
    using assms(3) by (rule years_range)
  then have b: "getCopyrightYears (replaceCurrentYear (lines ! i) thisYear end)
      = Some (thisYear, end)"
    using assms(3-6) by (intro years_of_replaced) simp_all
  have c: "(\<forall>l \<in> set lines. \<not> validates thisYear l) \<longrightarrow>
      (\<exists>es w'. checkCopyright thisYear f upd w = (Inr es, w') \<and> ?e \<in> set es)"
    using returned_when_not_suppressed [OF assms(1) _ a] by blast
  from a b c show ?thesis by blast
qed

theorem future_start_issue_witness:
  "(''a.py'', 1, msg_not_current, Some (replaceCurrentYear future_range 2024 2031))
     \<in> set (errs (scan_lines 2024 ''a.py'' [future_range])) \<and>
   getCopyrightYears (replaceCurrentYear future_range 2024 2031) = Some (2024, 2031) \<and>
   (\<exists>es w'. checkCopyright 2024 (Path ''a.py'') False (ex_world future_range) = (Inr es, w') \<and>
      (''a.py'', 1, msg_not_current, Some (replaceCurrentYear future_range 2024 2031)) \<in> set es) \<and>
   replaceCurrentYear future_range 2024 2031 =
     ''// Copyright (c) 2024-2031, NVIDIA CORPORATION'' @ [LF]"
proof -
  have r: "read_lines (ex_world future_range) (Path ''a.py'') = Inr [future_range]"
    by code_simp
  have i: "0 < length [future_range]" by simp
  have y: "getCopyrightYears ([future_range] ! 0) = Some (2030, 2031)"
    by code_simp
  have v: "\<forall>l \<in> set [future_range]. \<not> validates 2024 l"
    by code_simp
  have e: "replaceCurrentYear future_range 2024 2031 =
      ''// Copyright (c) 2024-2031, NVIDIA CORPORATION'' @ [LF]"
    by code_simp
  show ?thesis
    using future_start_issue [OF r i y, of 2024 False] v e
    by (simp add: source_path_def)
qed

text \<open>
  C2.  The code at a file whose only header has an inverted range: besides the issue
  of the inverted range (no replacement), the same line gets the issue of the year
  that is not current, with a replacement, and the update flag rewrites the line.
\<close>

theorem inverted_range_is_rewritten:
  "fst (checkCopyright 2024 (Path ''a.py'') True (ex_world inverted_past)) =
     Inr [(''a.py'', 1, msg_inverted, None),
          (''a.py'', 1, msg_not_current,
           Some (''# Copyright (c) 2022-2024, NVIDIA CORPORATION'' @ [LF]))] \<and>
   files (snd (checkCopyright 2024 (Path ''a.py'') True (ex_world inverted_past))) ''a.py'' =
     Some (''# Copyright (c) 2022-2024, NVIDIA CORPORATION'' @ [LF])"
  by code_simp

text \<open>
  C10.  \<^verbatim>\<open>replaceCurrentYear\<close> is the rewriting that replaces every header of
  either form by the canonical text with the two years and copies every other
  character; a line without a header comes back unchanged; and for years from 0 to
  9999 the two years in the canonical text are four digits each that read back as
  the years given.
\<close>

theorem replaceCurrentYear_canonical:
  "replaceCurrentYear line start end =
     rewrite_headers (canonical (fmt04d start) (fmt04d end)) line \<and>
   (re_search CheckSimple line = None \<and> re_search CheckDouble line = None \<longrightarrow>
      replaceCurrentYear line start end = line) \<and>
   (0 \<le> start \<and> start \<le> 9999 \<and> 0 \<le> end \<and> end \<le> 9999 \<longrightarrow>
      year4 (fmt04d start) \<and> year4 (fmt04d end) \<and>
      py_int (fmt04d start) = start \<and> py_int (fmt04d end) = end)"
  by (simp add: replaceCurrentYear_rewrite rewrite_unchanged fmt04d_year4 py_int_fmt04d)

theorem replaceCurrentYear_canonical_witness:
  "replaceCurrentYear mixed_line 2019 2024 =
     ''/* Copyright (c) 2019-2024, NVIDIA CORPORATION; Copyright (c) 2019-2024, NVIDIA CORPORATION */'' \<and>
   replaceCurrentYear ''# Copyright 2019 NVIDIA'' 2019 2024 = ''# Copyright 2019 NVIDIA'' \<and>
   fmt04d 2019 = ''2019'' \<and> py_int (fmt04d 2024) = 2024"
proof -
  have a: "rewrite_headers (canonical (fmt04d 2019) (fmt04d 2024)) mixed_line =
      ''/* Copyright (c) 2019-2024, NVIDIA CORPORATION; Copyright (c) 2019-2024, NVIDIA CORPORATION */''"
    by code_simp
  have b: "re_search CheckSimple ''# Copyright 2019 NVIDIA'' = None \<and>
      re_search CheckDouble ''# Copyright 2019 NVIDIA'' = None"
    by code_simp
  have c: "fmt04d 2019 = ''2019''" by code_simp
  note t1 = replaceCurrentYear_canonical [of mixed_line 2019 2024]
  note t2 = replaceCurrentYear_canonical [of "''# Copyright 2019 NVIDIA''" 2019 2024]
  from t1 have "replaceCurrentYear mixed_line 2019 2024 =
      rewrite_headers (canonical (fmt04d 2019) (fmt04d 2024)) mixed_line"
    by (rule conjunct1)
  with a have p1: "replaceCurrentYear mixed_line 2019 2024 =
      ''/* Copyright (c) 2019-2024, NVIDIA CORPORATION; Copyright (c) 2019-2024, NVIDIA CORPORATION */''"
    by (simp only:)
  from t2 b have p2: "replaceCurrentYear ''# Copyright 2019 NVIDIA'' 2019 2024 =
      ''# Copyright 2019 NVIDIA''"
    by blast
  from t1 have "(0::int) \<le> 2019 \<and> (2019::int) \<le> 9999 \<and> (0::int) \<le> 2024 \<and> (2024::int) \<le> 9999 \<longrightarrow>
      py_int (fmt04d 2024) = 2024"
    by blast
  then have p3: "py_int (fmt04d 2024) = 2024" by simp
  from p1 p2 c p3 show ?thesis by (intro conjI)
qed



text \<open>
  C9, as stated, fails with \<^verbatim>\<open>--git-modified-only\<close>: the positional arguments are
  not looked at, and a run with a directory argument that does not exist ends with
  status 0.
\<close>

theorem missing_directory_counterexample:
  "\<not> isdir ex_env (abspath ex_env ''no_such_dir'') \<and>
   fst (checkCopyright_main ex_env 2024 git_mode [''no_such_dir''] ExemptFiles
          (repo_world stale_single)) = Inr 0 \<and>
   exit_status (fst (checkCopyright_main ex_env 2024 git_mode [''no_such_dir''] ExemptFiles
          (repo_world stale_single))) = 0"
  by code_simp

text \<open>
  C9, amended.  Without \<^verbatim>\<open>--git-modified-only\<close>, if some positional argument does
  not name a directory, the run ends with status 1 (the \<^verbatim>\<open>ValueError\<close>, or the
  return of 1 for an exemption pattern that does not compile) before any file is
  read or written and before any issue is printed: the files are unchanged and
  nothing but the regular-expression error has been printed.
\<close>

theorem missing_directory_aborts:
  assumes "\<not> git_modified_only a"
    and "d \<in> set dirs"
    and "\<not> isdir e (abspath e d)"
  shows "((\<exists>x. checkCopyright_main e y a dirs pats w = (Inl (ValueError x), w)) \<or>
          (\<exists>p. checkCopyright_main e y a dirs pats w = (Inr 1, print (RegexError p) w))) \<and>
         exit_status (fst (checkCopyright_main e y a dirs pats w)) = 1 \<and>
         files (snd (checkCopyright_main e y a dirs pats w)) = files w"
proof (cases "compile_all (re_compile e) pats")
  case (Inl p)
  then have m: "checkCopyright_main e y a dirs pats w = (Inr 1, print (RegexError p) w)"
    by (simp add: checkCopyright_main_def)
  then have "\<exists>p. checkCopyright_main e y a dirs pats w = (Inr 1, print (RegexError p) w)"
    by blast
  moreover have "exit_status (fst (checkCopyright_main e y a dirs pats w)) = 1"
    by (simp add: m exit_status_def)
  moreover have "files (snd (checkCopyright_main e y a dirs pats w)) = files w"
    by (simp add: m print_def)
  ultimately show ?thesis by blast
next
  case (Inr exempt)
  have "abspath e d \<in> set (map (abspath e) dirs)" using assms(2) by simp
  then obtain x where "files_under_dirs e (\<lambda>p. checkThisFile exempt w (Path p))
      (map (abspath e) dirs) = Inl (ValueError x)"
    using files_under_dirs_missing assms(3) by blast
  then have "select_files e a dirs exempt w = (Inl (ValueError x), w)"
    using assms(1) by (simp add: select_files_def)
  then have "checkCopyright_main e y a dirs pats w = (Inl (ValueError x), w)"
    using Inr by (simp add: checkCopyright_main_def)
  then show ?thesis by (simp add: exit_status_def)
qed

theorem missing_directory_aborts_witness:
  "exit_status (fst (checkCopyright_main ex_env 2024 dirs_mode [''repo'', ''no_such_dir'']
      ExemptFiles (repo_world stale_single))) = 1 \<and>
   files (snd (checkCopyright_main ex_env 2024 dirs_mode [''repo'', ''no_such_dir'']
      ExemptFiles (repo_world stale_single))) = files (repo_world stale_single) \<and>
   fst (checkCopyright_main ex_env 2024 dirs_mode [''repo'', ''no_such_dir'']
      ExemptFiles (repo_world stale_single)) = Inl (ValueError ''/no_such_dir is not a directory.'')"
proof -
  have g: "\<not> git_modified_only dirs_mode" by code_simp
  have d: "''no_such_dir'' \<in> set [''repo'', ''no_such_dir'']" by simp
  have n: "\<not> isdir ex_env (abspath ex_env ''no_such_dir'')" by code_simp
  have f: "fst (checkCopyright_main ex_env 2024 dirs_mode [''repo'', ''no_such_dir'']
      ExemptFiles (repo_world stale_single)) = Inl (ValueError ''/no_such_dir is not a directory.'')"
    by code_simp
  show ?thesis
    using missing_directory_aborts [OF g d n, of 2024 ExemptFiles "repo_world stale_single"] f
    by blast
qed

text \<open>
  C5, amended.  For a file on disk in which some matched line does not have
  \<open>end < thisYear < start\<close> (in a year from 0 to 9999, the same in both runs), a
  second run of \<^verbatim>\<open>checkCopyright\<close> with the update flag, on what the first run left,
  returns no issue, prints nothing and leaves every file as the first run left it.
\<close>

theorem second_update_run_clean:
  assumes "files w p = Some content"
    and "line \<in> set (readlines (universal_newlines content))"
    and "getCopyrightYears line = Some (start, end)"
    and "\<not> (end < thisYear \<and> thisYear < start)"
    and "0 \<le> thisYear" and "thisYear \<le> 9999"
  shows "checkCopyright thisYear (Path p) True (snd (checkCopyright thisYear (Path p) True w)) =
           (Inr [], snd (checkCopyright thisYear (Path p) True w))"
proof -
  let ?lines = "readlines (universal_newlines content)"
  let ?w1 = "snd (checkCopyright thisYear (Path p) True w)"
  have r: "read_lines w (Path p) = Inr ?lines"
    using assms(1) by (simp add: read_lines_def)
  have fv: "validates thisYear (fix_line thisYear line)"
    using assms(3-6) by (rule fix_line_validates)
  show ?thesis
  proof (cases "\<exists>l \<in> set ?lines. validates thisYear l")
    case True
    then have "checkCopyright thisYear (Path p) True w = (Inr [], w)"
      by (rule suppressed_result [OF r])
    then show ?thesis by simp
  next
    case False
    then have "matched line \<and> \<not> validates thisYear line"
      using assms(2,3) by (auto simp add: matched_def)
    then have "fixable (issues_from thisYear p 0 ?lines) \<noteq> []"
      using assms(2) by (auto simp add: fixable_issues_from_Nil_iff)
    then have "fixable (final_errs p (scan_lines thisYear p ?lines)) \<noteq> []"
      using False by (simp add: fixable_final_errs)
    then have "files ?w1 p = Some (concat (map (fix_line thisYear) ?lines))"
      by (simp add: checkCopyright_eq [OF r] Let_def source_path_def write_lines_def print_def)
    then have "read_lines ?w1 (Path p) = Inr (map (fix_line thisYear) ?lines)"
      using reread_fixed_lines [of ?lines content thisYear] by (simp add: read_lines_def)
    moreover have "\<exists>l \<in> set (map (fix_line thisYear) ?lines). validates thisYear l"
      using fv assms(2) by auto
    ultimately show ?thesis by (rule suppressed_result)
  qed
qed

theorem second_update_run_clean_witness:
  "checkCopyright 2024 (Path ''a.py'') True
     (snd (checkCopyright 2024 (Path ''a.py'') True (ex_world lf_file))) =
     (Inr [], snd (checkCopyright 2024 (Path ''a.py'') True (ex_world lf_file))) \<and>
   files (snd (checkCopyright 2024 (Path ''a.py'') True (ex_world lf_file))) ''a.py'' =
     Some (''import os'' @ [LF] @ ''# Copyright (c) 2019-2024, NVIDIA CORPORATION'' @ [LF])"
proof -
  let ?l = "''# Copyright (c) 2019, NVIDIA CORPORATION'' @ [LF]"
  have f: "files (ex_world lf_file) ''a.py'' = Some lf_file"
    by (simp add: ex_world_def)
  have m: "?l \<in> set (readlines (universal_newlines lf_file))"
    by code_simp
  have y: "getCopyrightYears ?l = Some (2019, 2019)"
    by code_simp
  have a: "checkCopyright 2024 (Path ''a.py'') True
      (snd (checkCopyright 2024 (Path ''a.py'') True (ex_world lf_file))) =
      (Inr [], snd (checkCopyright 2024 (Path ''a.py'') True (ex_world lf_file)))"
    by (rule second_update_run_clean [OF f m y]) simp_all
  have b: "files (snd (checkCopyright 2024 (Path ''a.py'') True (ex_world lf_file))) ''a.py'' =
      Some (''import os'' @ [LF] @ ''# Copyright (c) 2019-2024, NVIDIA CORPORATION'' @ [LF])"
    by code_simp
  from a b show ?thesis by (intro conjI)
qed

text \<open>
  C5, as stated, fails on a file without a header: the missing header cannot be
  fixed, and the second run reports it again.
\<close>

theorem second_update_run_counterexample:
  "fst (checkCopyright 2024 (Path ''a.py'') True
     (snd (checkCopyright 2024 (Path ''a.py'') True (ex_world no_header)))) =
     Inr [(''a.py'', 0, msg_missing, None)]"
  by code_simp

text \<open>
  C7, as stated, fails on a file with \<^verbatim>\<open>\r\n\<close> line ends: the only fixable issue is
  on line 2, and line 1 is written back with \<^verbatim>\<open>\n\<close> for its \<^verbatim>\<open>\r\n\<close>.  It also fails
  for a diff whose working file differs from the staged blob (the line that is not
  staged is lost) and for a diff whose path is not on disk (the file is created).
\<close>

theorem update_other_lines_counterexample:
  "fst (checkCopyright 2024 (Path ''a.py'') True (ex_world crlf_file)) =
     Inr [(''a.py'', 2, msg_not_current,
           Some (''# Copyright (c) 2019-2024, NVIDIA CORPORATION'' @ [LF]))] \<and>
   files (snd (checkCopyright 2024 (Path ''a.py'') True (ex_world crlf_file))) ''a.py'' =
     Some (''import os'' @ [LF] @ ''# Copyright (c) 2019-2024, NVIDIA CORPORATION'' @ [LF]) \<and>
   \<not> other_lines_identical crlf_file
       (''import os'' @ [LF] @ ''# Copyright (c) 2019-2024, NVIDIA CORPORATION'' @ [LF]) [2] \<and>
   fst (checkCopyright 2024 (Diff staged_diff) True (ex_world edited_file)) =
     Inr [(''a.py'', 1, msg_not_current, Some fixed_line)] \<and>
   files (snd (checkCopyright 2024 (Diff staged_diff) True (ex_world edited_file))) ''a.py'' =
     Some fixed_line \<and>
   \<not> other_lines_identical edited_file fixed_line [1] \<and>
   files (ex_world edited_file) ''b.py'' = None \<and>
   files (snd (checkCopyright 2024 (Diff new_path_diff) True (ex_world edited_file))) ''b.py'' =
     Some fixed_line"
  by code_simp

text \<open>
  C7, amended.  For a candidate whose file on disk holds the text that was read
  (every path candidate; a diff whose working file holds the staged blob), the call
  returns and changes nothing unless the update flag is set and a fixable issue is
  returned.  Then it writes that one file: the lines that were read, with exactly
  the lines at the numbers of the fixable issues replaced by their replacements and
  every other line the same, in the same order.  The lines read are the text of the
  file, for a path candidate with every \<^verbatim>\<open>\r\n\<close> and \<^verbatim>\<open>\r\<close> read as \<^verbatim>\<open>\n\<close>; without a
  carriage return in the file they are the file byte for byte.  The bytes written are
  the utf-8 encoding of the lines, the encoding the file was read with.  No file is
  created, deleted or moved.
\<close>

theorem update_keeps_other_lines:
  assumes "read_lines w f = Inr lines"
    and "files w (source_path f) = Some content"
    and "\<forall>d. f = Diff d \<longrightarrow> b_blob d = content"
  shows "\<exists>es w'. checkCopyright y f upd w = (Inr es, w') \<and>
     (\<not> (upd \<and> fixable es \<noteq> []) \<longrightarrow> w' = w) \<and>
     (upd \<and> fixable es \<noteq> [] \<longrightarrow>
        (\<exists>lines'. files w' = (files w)(source_path f \<mapsto> concat lines') \<and>
           length lines' = length lines \<and>
           (\<forall>i < length lines.
              int i + 1 \<notin> issue_line ` set (fixable es) \<longrightarrow> lines' ! i = lines ! i) \<and>
           (\<forall>e \<in> set (fixable es). \<exists>i < length lines.
              issue_line e = int i + 1 \<and> issue_replacement e = Some (lines' ! i)) \<and>
           file_bytes w' (source_path f) = Some (concat (map utf8_encode lines')) \<and>
           utf8_decode (concat (map utf8_encode lines')) = Some (concat lines'))) \<and>
     dom (files w') = dom (files w) \<and>
     concat lines = (case f of Path p \<Rightarrow> universal_newlines content | Diff d \<Rightarrow> content) \<and>
     (CR \<notin> set content \<longrightarrow>
        concat lines = content \<and>
        file_bytes w (source_path f) = Some (concat (map utf8_encode lines))) \<and>
     file_bytes w (source_path f) = Some (utf8_encode content) \<and>
     utf8_decode (utf8_encode content) = Some content"
proof -
  let ?p = "source_path f"
  let ?es = "final_errs ?p (scan_lines y ?p lines)"
  let ?w' = "snd (checkCopyright y f upd w)"
  let ?lines' = "map (fix_line y) lines"
  have c: "checkCopyright y f upd w = (Inr ?es, ?w')"
    by (simp add: checkCopyright_eq [OF assms(1)] Let_def)
  have n: "\<not> (upd \<and> fixable ?es \<noteq> []) \<longrightarrow> ?w' = w"
    by (simp add: checkCopyright_eq [OF assms(1)] Let_def)
  have src: "concat lines = (case f of Path p \<Rightarrow> universal_newlines content | Diff d \<Rightarrow> content)"
    "CR \<notin> set content \<longrightarrow> concat lines = content"
    using lines_of_content [OF assms] by blast+
  have rd: "file_bytes w ?p = Some (utf8_encode content)"
    "utf8_decode (utf8_encode content) = Some content"
    using assms(2) by (simp_all add: file_bytes_def utf8_decode_encode)
  have nocr: "CR \<notin> set content \<longrightarrow>
      concat lines = content \<and> file_bytes w ?p = Some (concat (map utf8_encode lines))"
    using src(2) rd(1) utf8_encode_concat [of lines] by auto
  have fw: "files ?w' = (files w)(?p \<mapsto> concat ?lines')" if "upd \<and> fixable ?es \<noteq> []"
    using that by (simp add: checkCopyright_eq [OF assms(1)] Let_def write_lines_def print_def)
  have d: "dom (files ?w') = dom (files w)"
  proof (cases "upd \<and> fixable ?es \<noteq> []")
    case True
    then show ?thesis using fw assms(2) by auto
  next
    case False
    then show ?thesis using n by simp
  qed
  have u: "\<exists>lines'. files ?w' = (files w)(?p \<mapsto> concat lines') \<and>
           length lines' = length lines \<and>
           (\<forall>i < length lines.
              int i + 1 \<notin> issue_line ` set (fixable ?es) \<longrightarrow> lines' ! i = lines ! i) \<and>
           (\<forall>e \<in> set (fixable ?es). \<exists>i < length lines.
              issue_line e = int i + 1 \<and> issue_replacement e = Some (lines' ! i)) \<and>
           file_bytes ?w' ?p = Some (concat (map utf8_encode lines')) \<and>
           utf8_decode (concat (map utf8_encode lines')) = Some (concat lines')"
    if up: "upd \<and> fixable ?es \<noteq> []"
  proof -
    have fe: "fixable ?es = fixable (issues_from y ?p 0 lines)"
      using up by (simp add: fixable_final_errs split: if_splits)
    have keep: "?lines' ! i = lines ! i"
      if i: "i < length lines" and ni: "int i + 1 \<notin> issue_line ` set (fixable ?es)" for i
    proof -
      have "\<not> (matched (lines ! i) \<and> \<not> validates y (lines ! i))"
      proof
        assume "matched (lines ! i) \<and> \<not> validates y (lines ! i)"
        then have "(?p, 0 + int i + 1, msg_not_current, Some (fix_line y (lines ! i)))
            \<in> set (fixable ?es)"
          using i unfolding fe fixable_issues_from_iff by blast
        then have "int i + 1 \<in> issue_line ` set (fixable ?es)"
          by (force simp add: issue_line_def)
        with ni show False by simp
      qed
      then show ?thesis using i by (simp add: fix_line_unchanged)
    qed
    have repl: "\<exists>i < length lines. issue_line e = int i + 1 \<and>
        issue_replacement e = Some (?lines' ! i)" if "e \<in> set (fixable ?es)" for e
    proof -
      from that obtain i where "i < length lines"
        "e = (?p, 0 + int i + 1, msg_not_current, Some (fix_line y (lines ! i)))"
        unfolding fe fixable_issues_from_iff by blast
      then show ?thesis
        by (auto simp add: issue_line_def issue_replacement_def)
    qed
    have fb: "file_bytes ?w' ?p = Some (concat (map utf8_encode ?lines'))"
      by (rule file_bytes_written) (simp add: fw [OF up])
    from fw [OF up] keep repl fb utf8_decode_lines [of ?lines'] show ?thesis
      by (intro exI [of _ ?lines'] conjI) auto
  qed
  from c n u d src(1) nocr rd show ?thesis by blast
qed

theorem update_keeps_other_lines_witness:
  "(\<exists>es w'. checkCopyright 2024 (Path ''a.py'') True (ex_world lf_file) = (Inr es, w') \<and>
      (\<exists>lines'. files w' = (files (ex_world lf_file))(''a.py'' \<mapsto> concat lines') \<and>
         length lines' = 2 \<and> lines' ! 0 = os_line \<and> lines' ! 1 = fixed_line \<and>
         file_bytes w' ''a.py'' = Some (concat (map utf8_encode lines'))) \<and>
      dom (files w') = dom (files (ex_world lf_file))) \<and>
   (\<exists>es w'. checkCopyright 2024 (Diff staged_diff) True (ex_world stale_line) = (Inr es, w') \<and>
      (\<exists>lines'. files w' = (files (ex_world stale_line))(''a.py'' \<mapsto> concat lines') \<and>
         length lines' = 1 \<and> lines' ! 0 = fixed_line \<and>
         file_bytes w' ''a.py'' = Some (concat (map utf8_encode lines'))) \<and>
      dom (files w') = dom (files (ex_world stale_line)))"
proof -
  let ?e2 = "(''a.py'', 2::int, msg_not_current, Some fixed_line)"
  let ?e1 = "(''a.py'', 1::int, msg_not_current, Some fixed_line)"
  have part: "\<exists>es w'. checkCopyright 2024 f True w = (Inr es, w') \<and>
      (\<exists>lines'. files w' = (files w)(''a.py'' \<mapsto> concat lines') \<and>
         length lines' = length lines \<and>
         (\<forall>i < length lines.
            int i + 1 \<notin> issue_line ` set [e] \<longrightarrow> lines' ! i = lines ! i) \<and>
         (\<forall>x \<in> set [e]. \<exists>i < length lines.
            issue_line x = int i + 1 \<and> issue_replacement x = Some (lines' ! i)) \<and>
         file_bytes w' ''a.py'' = Some (concat (map utf8_encode lines'))) \<and>
      dom (files w') = dom (files w)"
    if r: "read_lines w f = Inr lines"
      and h2: "files w (source_path f) = Some content"
      and h3: "\<forall>d. f = Diff d \<longrightarrow> b_blob d = content"
      and v: "fst (checkCopyright 2024 f True w) = Inr [e]"
      and fx: "fixable [e] = [e]"
      and sp: "source_path f = ''a.py''"
    for f w lines content e
  proof -
    from update_keeps_other_lines [OF r h2 h3, of 2024 True] obtain es w' where
      c: "checkCopyright 2024 f True w = (Inr es, w')"
      and u: "True \<and> fixable es \<noteq> [] \<longrightarrow>
        (\<exists>lines'. files w' = (files w)(source_path f \<mapsto> concat lines') \<and>
           length lines' = length lines \<and>
           (\<forall>i < length lines.
              int i + 1 \<notin> issue_line ` set (fixable es) \<longrightarrow> lines' ! i = lines ! i) \<and>
           (\<forall>e \<in> set (fixable es). \<exists>i < length lines.
              issue_line e = int i + 1 \<and> issue_replacement e = Some (lines' ! i)) \<and>
           file_bytes w' (source_path f) = Some (concat (map utf8_encode lines')) \<and>
           utf8_decode (concat (map utf8_encode lines')) = Some (concat lines'))"
      and d: "dom (files w') = dom (files w)"
      by (elim exE conjE) (rule that, assumption+)
    have es: "es = [e]" using c v by simp
    have pre: "True \<and> fixable es \<noteq> []" unfolding es fx by simp
    from u pre have "\<exists>lines'. files w' = (files w)(''a.py'' \<mapsto> concat lines') \<and>
           length lines' = length lines \<and>
           (\<forall>i < length lines.
              int i + 1 \<notin> issue_line ` set [e] \<longrightarrow> lines' ! i = lines ! i) \<and>
           (\<forall>x \<in> set [e]. \<exists>i < length lines.
              issue_line x = int i + 1 \<and> issue_replacement x = Some (lines' ! i)) \<and>
           file_bytes w' ''a.py'' = Some (concat (map utf8_encode lines')) \<and>
           utf8_decode (concat (map utf8_encode lines')) = Some (concat lines')"
      unfolding es fx sp by (rule mp)
    then have "\<exists>lines'. files w' = (files w)(''a.py'' \<mapsto> concat lines') \<and>
           length lines' = length lines \<and>
           (\<forall>i < length lines.
              int i + 1 \<notin> issue_line ` set [e] \<longrightarrow> lines' ! i = lines ! i) \<and>
           (\<forall>x \<in> set [e]. \<exists>i < length lines.
              issue_line x = int i + 1 \<and> issue_replacement x = Some (lines' ! i)) \<and>
           file_bytes w' ''a.py'' = Some (concat (map utf8_encode lines'))"
      by blast
    with c d show ?thesis by blast
  qed
  have r1: "read_lines (ex_world lf_file) (Path ''a.py'') = Inr [os_line, stale_line]"
    by code_simp
  have v1: "fst (checkCopyright 2024 (Path ''a.py'') True (ex_world lf_file)) = Inr [?e2]"
    by code_simp
  have a1: "files (ex_world lf_file) (source_path (Path ''a.py'')) = Some lf_file"
    by (simp add: ex_world_def source_path_def)
  have b1: "\<forall>d. Path ''a.py'' = Diff d \<longrightarrow> b_blob d = lf_file" by simp
  have fx2: "fixable [?e2] = [?e2]" by (simp add: fixable_def issue_replacement_def)
  have sp1: "source_path (Path ''a.py'') = ''a.py''" by (simp add: source_path_def)
  from part [OF r1 a1 b1 v1 fx2 sp1] obtain es w' lines' where
    c: "checkCopyright 2024 (Path ''a.py'') True (ex_world lf_file) = (Inr es, w')"
    and fw: "files w' = (files (ex_world lf_file))(''a.py'' \<mapsto> concat lines')"
    and len: "length lines' = length [os_line, stale_line]"
    and keep: "\<forall>i < length [os_line, stale_line].
        int i + 1 \<notin> issue_line ` set [?e2] \<longrightarrow> lines' ! i = [os_line, stale_line] ! i"
    and repl: "\<forall>x \<in> set [?e2]. \<exists>i < length [os_line, stale_line].
        issue_line x = int i + 1 \<and> issue_replacement x = Some (lines' ! i)"
    and fb: "file_bytes w' ''a.py'' = Some (concat (map utf8_encode lines'))"
    and d: "dom (files w') = dom (files (ex_world lf_file))"
    by (elim exE conjE) (rule that, assumption+)
  have "int 0 + 1 \<notin> issue_line ` set [?e2]" by (simp add: issue_line_def)
  moreover have "(0::nat) < length [os_line, stale_line]" by simp
  ultimately have "lines' ! 0 = [os_line, stale_line] ! 0" using keep by blast
  then have k0: "lines' ! 0 = os_line" by simp
  have "?e2 \<in> set [?e2]" by simp
  with repl obtain i where i: "i < length [os_line, stale_line]"
    "issue_line ?e2 = int i + 1" "issue_replacement ?e2 = Some (lines' ! i)"
    by blast
  from i(2) have "i = 1" by (simp add: issue_line_def)
  with i(3) have k1: "lines' ! 1 = fixed_line" by (simp add: issue_replacement_def)
  have l2: "length lines' = 2" using len by simp
  from fw l2 k0 k1 fb have "\<exists>lines'. files w' = (files (ex_world lf_file))(''a.py'' \<mapsto> concat lines') \<and>
      length lines' = 2 \<and> lines' ! 0 = os_line \<and> lines' ! 1 = fixed_line \<and>
      file_bytes w' ''a.py'' = Some (concat (map utf8_encode lines'))"
    by blast
  with c d have first: "\<exists>es w'. checkCopyright 2024 (Path ''a.py'') True (ex_world lf_file) = (Inr es, w') \<and>
      (\<exists>lines'. files w' = (files (ex_world lf_file))(''a.py'' \<mapsto> concat lines') \<and>
         length lines' = 2 \<and> lines' ! 0 = os_line \<and> lines' ! 1 = fixed_line \<and>
         file_bytes w' ''a.py'' = Some (concat (map utf8_encode lines'))) \<and>
      dom (files w') = dom (files (ex_world lf_file))"
    by blast
  have r2: "read_lines (ex_world stale_line) (Diff staged_diff) = Inr [stale_line]"
    by code_simp
  have v2: "fst (checkCopyright 2024 (Diff staged_diff) True (ex_world stale_line)) = Inr [?e1]"
    by code_simp
  have a2: "files (ex_world stale_line) (source_path (Diff staged_diff)) = Some stale_line"
    by (simp add: ex_world_def source_path_def staged_diff_def)
  have b2: "\<forall>d. Diff staged_diff = Diff d \<longrightarrow> b_blob d = stale_line"
    by (simp add: staged_diff_def)
  have fx1: "fixable [?e1] = [?e1]" by (simp add: fixable_def issue_replacement_def)
  have sp2: "source_path (Diff staged_diff) = ''a.py''"
    by (simp add: source_path_def staged_diff_def)
  from part [OF r2 a2 b2 v2 fx1 sp2] obtain es2 w2 lines2 where
    c2: "checkCopyright 2024 (Diff staged_diff) True (ex_world stale_line) = (Inr es2, w2)"
    and fw2: "files w2 = (files (ex_world stale_line))(''a.py'' \<mapsto> concat lines2)"
    and len2: "length lines2 = length [stale_line]"
    and repl2: "\<forall>x \<in> set [?e1]. \<exists>i < length [stale_line].
        issue_line x = int i + 1 \<and> issue_replacement x = Some (lines2 ! i)"
    and fb2: "file_bytes w2 ''a.py'' = Some (concat (map utf8_encode lines2))"
    and d2: "dom (files w2) = dom (files (ex_world stale_line))"
    by (elim exE conjE) (rule that, assumption+)
  have "?e1 \<in> set [?e1]" by simp
  with repl2 obtain j where j: "j < length [stale_line]"
    "issue_replacement ?e1 = Some (lines2 ! j)"
    by blast
  from j(1) have "j = 0" by simp
  with j(2) have m0: "lines2 ! 0 = fixed_line" by (simp add: issue_replacement_def)
  have l1: "length lines2 = 1" using len2 by simp
  from fw2 l1 m0 fb2 have "\<exists>lines'. files w2 = (files (ex_world stale_line))(''a.py'' \<mapsto> concat lines') \<and>
      length lines' = 1 \<and> lines' ! 0 = fixed_line \<and>
      file_bytes w2 ''a.py'' = Some (concat (map utf8_encode lines'))"
    by blast
  with c2 d2 have second: "\<exists>es w'. checkCopyright 2024 (Diff staged_diff) True (ex_world stale_line) = (Inr es, w') \<and>
      (\<exists>lines'. files w' = (files (ex_world stale_line))(''a.py'' \<mapsto> concat lines') \<and>
         length lines' = 1 \<and> lines' ! 0 = fixed_line \<and>
         file_bytes w' ''a.py'' = Some (concat (map utf8_encode lines'))) \<and>
      dom (files w') = dom (files (ex_world stale_line))"
    by blast
  from first second show ?thesis by (rule conjI)
qed

end
